theory Spec2Isabelle
  imports Complex_Main "HOL-Library.Multiset" "HOL-Library.Word"
begin

section \<open>Data model of the page extractor's output\<close>

text \<open>
  A Python \<^verbatim>\<open>str\<close> is a sequence of Unicode code points; it is modelled as a list of
  natural numbers (the code points), since the quality gate and the regular expressions
  of the source look at code points beyond one byte. \<open>ustr\<close> reads an ASCII literal.
  Coordinates of a bounding box are the extractor's numbers; they are modelled as
  \<open>real\<close>, with exact subtraction and comparison.
\<close>

type_synonym ustring = "nat list"

definition ustr :: "string \<Rightarrow> ustring" where
  "ustr s = map of_char s"

record bbox =
  x0 :: real
  y0 :: real
  x1 :: real
  y1 :: real

record span =
  span_text :: ustring
  span_bbox :: bbox

record line =
  line_spans :: "span list"

text \<open>Shorthands for \<^verbatim>\<open>s["bbox"][0]\<close> and \<^verbatim>\<open>s["bbox"][2]\<close>.\<close>

definition left_x :: "span \<Rightarrow> real" where
  "left_x s = x0 (span_bbox s)"

definition right_x :: "span \<Rightarrow> real" where
  "right_x s = x1 (span_bbox s)"

section \<open>Python string primitives\<close>

text \<open>
  \<^verbatim>\<open>str.isspace\<close> on one code point, which is also the class \<^verbatim>\<open>\s\<close> of the
  \<^verbatim>\<open>re\<close> module on \<^verbatim>\<open>str\<close> patterns and the set that \<^verbatim>\<open>str.strip()\<close> removes.
\<close>

definition py_isspace :: "nat \<Rightarrow> bool" where
  "py_isspace c \<longleftrightarrow>
     (9 \<le> c \<and> c \<le> 13) \<or> (28 \<le> c \<and> c \<le> 32) \<or> c = 133 \<or> c = 160 \<or> c = 5760 \<or>
     (8192 \<le> c \<and> c \<le> 8202) \<or> c = 8232 \<or> c = 8233 \<or> c = 8239 \<or> c = 8287 \<or> c = 12288"

definition py_strip :: "ustring \<Rightarrow> ustring" where
  "py_strip s = rev (dropWhile py_isspace (rev (dropWhile py_isspace s)))"

section \<open>Span Reassembler: \<^verbatim>\<open>join_spans\<close>\<close>

text \<open>
  The loop over \<^verbatim>\<open>sorted_spans[1:]\<close>, with the loop variables \<^verbatim>\<open>text\<close> and
  \<^verbatim>\<open>last_right\<close> as arguments. Python's \<^verbatim>\<open>sorted\<close> with a key is a stable sort, as
  \<open>sort_key\<close> is.
\<close>

fun join_loop :: "real \<Rightarrow> span list \<Rightarrow> ustring \<Rightarrow> real \<Rightarrow> ustring" where
  "join_loop gap_threshold [] txt last_right = txt"
| "join_loop gap_threshold (s # rest) txt last_right =
     (let gap = left_x s - last_right in
      join_loop gap_threshold rest
        (if gap > gap_threshold then txt @ [32] @ span_text s else txt @ span_text s)
        (right_x s))"

definition join_spans :: "span list \<Rightarrow> real \<Rightarrow> ustring" where
  "join_spans spans gap_threshold =
     (if spans = [] then []
      else let sorted_spans = sort_key left_x spans in
           join_loop gap_threshold (tl sorted_spans)
             (span_text (hd sorted_spans)) (right_x (hd sorted_spans)))"

text \<open>
  The reassembled text as the specification words it: the texts of the spans in the
  given order, the \<open>i\<close>-th one preceded by one space exactly when \<open>i > 0\<close> and its left
  edge is more than the threshold to the right of the right edge of span \<open>i - 1\<close>.
\<close>

definition spaced_piece :: "real \<Rightarrow> span list \<Rightarrow> nat \<Rightarrow> ustring" where
  "spaced_piece thr ss i =
     (if 0 < i \<and> left_x (ss ! i) - right_x (ss ! (i - 1)) > thr then [32] else []) @
     span_text (ss ! i)"

definition spaced_concat :: "real \<Rightarrow> span list \<Rightarrow> ustring" where
  "spaced_concat thr ss = concat (map (spaced_piece thr ss) [0..<length ss])"

section \<open>Table Heuristic: \<^verbatim>\<open>merge_spans_for_table\<close> and \<^verbatim>\<open>is_table_block\<close>\<close>

text \<open>
  The loop of \<^verbatim>\<open>merge_spans_for_table\<close> with its variables \<^verbatim>\<open>cells\<close>,
  \<^verbatim>\<open>current_cell_text\<close> and \<^verbatim>\<open>current_cell_end\<close>; the append after the loop is
  the base case.
\<close>

fun merge_loop :: "real \<Rightarrow> span list \<Rightarrow> ustring list \<Rightarrow> ustring \<Rightarrow> real \<Rightarrow> ustring list" where
  "merge_loop gap_threshold [] cells current_cell_text current_cell_end =
     cells @ [py_strip current_cell_text]"
| "merge_loop gap_threshold (s # rest) cells current_cell_text current_cell_end =
     (let gap = left_x s - current_cell_end in
      if gap < gap_threshold
      then merge_loop gap_threshold rest cells (current_cell_text @ [32] @ span_text s) (right_x s)
      else merge_loop gap_threshold rest (cells @ [py_strip current_cell_text])
             (span_text s) (right_x s))"

definition merge_spans_for_table :: "span list \<Rightarrow> real \<Rightarrow> ustring list" where
  "merge_spans_for_table spans gap_threshold =
     (let sorted_spans = sort_key left_x spans in
      if sorted_spans = [] then []
      else merge_loop gap_threshold (tl sorted_spans) []
             (span_text (hd sorted_spans)) (right_x (hd sorted_spans)))"

text \<open>
  Cell merge as the specification words it: the spans, in the given order, are cut into
  groups; a span joins the group of the span before it when its left edge is less than
  the threshold away from that span's right edge (the right edge of the current cell), and
  opens a new group otherwise. A cell is the texts of a group joined by single spaces,
  trimmed.
\<close>

fun cell_groups :: "real \<Rightarrow> span list \<Rightarrow> span list list" where
  "cell_groups thr [] = []"
| "cell_groups thr [s] = [[s]]"
| "cell_groups thr (s # t # rest) =
     (if left_x t - right_x s < thr
      then (s # hd (cell_groups thr (t # rest))) # tl (cell_groups thr (t # rest))
      else [s] # cell_groups thr (t # rest))"

fun spaced_texts :: "span list \<Rightarrow> ustring" where
  "spaced_texts [] = []"
| "spaced_texts [s] = span_text s"
| "spaced_texts (s # t # rest) = span_text s @ [32] @ spaced_texts (t # rest)"

fun close_run :: "real \<Rightarrow> span list \<Rightarrow> bool" where
  "close_run thr (s # t # rest) = (left_x t - right_x s < thr \<and> close_run thr (t # rest))"
| "close_run thr _ = True"

fun far_apart :: "real \<Rightarrow> span list list \<Rightarrow> bool" where
  "far_apart thr (g # h # rest) =
     (left_x (hd h) - right_x (last g) \<ge> thr \<and> far_apart thr (h # rest))"
| "far_apart thr _ = True"

definition merged_cell :: "span list \<Rightarrow> ustring" where
  "merged_cell g = py_strip (spaced_texts g)"

definition trimmed :: "ustring \<Rightarrow> bool" where
  "trimmed c \<longleftrightarrow> c = [] \<or> (\<not> py_isspace (hd c) \<and> \<not> py_isspace (last c))"

text \<open>
  A block of the extractor: \<^verbatim>\<open>block.get("type")\<close> (0 text, 1 image), its bounding box,
  \<^verbatim>\<open>block.get("lines", [])\<close>, and the two places an image block may carry its image,
  \<^verbatim>\<open>block.get("xref")\<close> and \<^verbatim>\<open>block.get("image")\<close>: a byte payload, an integer
  cross-reference, or a value that \<^verbatim>\<open>int()\<close> rejects.
\<close>

type_synonym bytes = "8 word list"

datatype img_ref = RefBytes bytes | RefInt int | RefOther

record block =
  block_type :: "int option"
  block_bbox :: bbox
  block_lines :: "line list"
  block_xref :: "img_ref option"
  block_image :: "img_ref option"

definition top_y :: "block \<Rightarrow> real" where
  "top_y b = y0 (block_bbox b)"

text \<open>
  The loop of \<^verbatim>\<open>is_table_block\<close>: \<open>None\<close> is the early \<^verbatim>\<open>return False\<close>, \<open>Some\<close> the
  list \<^verbatim>\<open>cell_counts\<close> at the end of the loop.
\<close>

fun count_loop :: "real \<Rightarrow> line list \<Rightarrow> nat list \<Rightarrow> nat list option" where
  "count_loop gap_threshold [] cell_counts = Some cell_counts"
| "count_loop gap_threshold (l # ls) cell_counts =
     (let cells = merge_spans_for_table (line_spans l) gap_threshold in
      if length cells < 2 then None
      else count_loop gap_threshold ls (cell_counts @ [length cells]))"

definition is_table_block :: "block \<Rightarrow> real \<Rightarrow> bool" where
  "is_table_block b gap_threshold =
     (let lines = block_lines b in
      if length lines < 2 then False
      else (case count_loop gap_threshold lines [] of
              None \<Rightarrow> False
            | Some cell_counts \<Rightarrow> card (set cell_counts) = 1))"

section \<open>Translation Gate: \<^verbatim>\<open>translate_text\<close>\<close>

text \<open>
  The translator (tokenizer, model and decoder) is outside the program: one invocation
  takes the translator's state and the processed text and either raises or returns the
  decoded string, with the next state. All of the loop body is inside
  \<^verbatim>\<open>try ... except Exception\<close>, so a raise is the \<open>Inl\<close> branch of the loop.
\<close>

datatype exn = Exception string

type_synonym 's translator = "'s \<Rightarrow> ustring \<Rightarrow> (exn + ustring) \<times> 's"

definition is_chinese :: "nat \<Rightarrow> bool" where
  "is_chinese c \<longleftrightarrow> 0x4E00 \<le> c \<and> c \<le> 0x9FFF"

text \<open>
  \<^verbatim>\<open>chinese_char_count / total_char_count if total_char_count > 0 else 0\<close>. The
  quotient is taken exactly; Python rounds it to a double, which moves it across the
  double nearest to 0.15 only for strings of more than \<open>10 ^ 15\<close> characters.
\<close>

definition chinese_ratio :: "ustring \<Rightarrow> real" where
  "chinese_ratio candidate_text =
     (let chinese_char_count = length (filter is_chinese candidate_text);
          total_char_count = length candidate_text
      in if total_char_count > 0 then real chinese_char_count / real total_char_count else 0)"

definition processed_text :: "ustring \<Rightarrow> ustring" where
  "processed_text t = py_strip (map (\<lambda>c. if c = 10 then 32 else c) t)"

function translate_loop ::
  "'s translator \<Rightarrow> ustring \<Rightarrow> nat \<Rightarrow> nat \<Rightarrow> 's \<Rightarrow> ustring option \<times> 's" where
  "translate_loop tr t max_attempts attempt s =
     (if attempt < max_attempts then
        (case tr s (processed_text t) of
           (Inl e, s') \<Rightarrow> translate_loop tr t max_attempts (Suc attempt) s'
         | (Inr raw, s') \<Rightarrow>
             (let candidate_text = py_strip raw in
              if chinese_ratio candidate_text \<ge> 15 / 100 then (Some candidate_text, s')
              else translate_loop tr t max_attempts (Suc attempt) s'))
      else (None, s))"
  by pat_completeness auto
termination
  by (relation "measure (\<lambda>(tr, t, m, a, s). m - a)") auto

declare translate_loop.simps [simp del]

definition translate_text :: "'s translator \<Rightarrow> ustring \<Rightarrow> 's \<Rightarrow> ustring option \<times> 's" where
  "translate_text tr t s = translate_loop tr t 3 0 s"

text \<open>
  The callers' \<^verbatim>\<open>translated if (translated and translated != text) else text\<close>.
\<close>

definition final_text :: "ustring option \<Rightarrow> ustring \<Rightarrow> ustring" where
  "final_text translated t =
     (case translated of
        None \<Rightarrow> t
      | Some c \<Rightarrow> if c \<noteq> [] \<and> c \<noteq> t then c else t)"

text \<open>
  The translator's state after \<open>n\<close> invocations on the same text, the outcome of the
  invocation with index \<open>i\<close> (from 0), and the test the gate applies to an outcome.
\<close>

fun state_after :: "'s translator \<Rightarrow> ustring \<Rightarrow> 's \<Rightarrow> nat \<Rightarrow> 's" where
  "state_after tr p s 0 = s"
| "state_after tr p s (Suc n) = state_after tr p (snd (tr s p)) n"

definition attempt_outcome :: "'s translator \<Rightarrow> ustring \<Rightarrow> 's \<Rightarrow> nat \<Rightarrow> exn + ustring" where
  "attempt_outcome tr p s i = fst (tr (state_after tr p s i) p)"

definition accepted :: "(exn + ustring) \<Rightarrow> bool" where
  "accepted r = (case r of Inl e \<Rightarrow> False | Inr raw \<Rightarrow> chinese_ratio (py_strip raw) \<ge> 15 / 100)"

text \<open>A translator that also counts its invocations.\<close>

definition counting :: "'s translator \<Rightarrow> ('s \<times> nat) translator" where
  "counting tr = (\<lambda>(s, n) p. (fst (tr s p), (snd (tr s p), Suc n)))"

section \<open>List Heuristic: the two prefix patterns\<close>

text \<open>
  The class \<^verbatim>\<open>\d\<close> of a \<^verbatim>\<open>str\<close> pattern is \<^verbatim>\<open>str.isdecimal\<close> on one code point:
  the decimal digits of Unicode (version 14 here), which come in runs of ten, and the
  fifty mathematical digits from U+1D7CE.
\<close>

definition decimal_runs :: "nat list" where
  "decimal_runs = [
     48, 1632, 1776, 1984, 2406, 2534, 2662, 2790, 2918, 3046,
     3174, 3302, 3430, 3558, 3664, 3792, 3872, 4160, 4240, 6112,
     6160, 6470, 6608, 6784, 6800, 6992, 7088, 7232, 7248, 42528,
     43216, 43264, 43472, 43504, 43600, 44016, 65296, 66720, 68912, 69734,
     69872, 69942, 70096, 70384, 70736, 70864, 71248, 71360, 71472, 71904,
     72016, 72784, 73040, 73120, 92768, 92864, 93008, 123200, 123632, 125264,
     130032]"

definition py_isdecimal :: "nat \<Rightarrow> bool" where
  "py_isdecimal c \<longleftrightarrow>
     list_ex (\<lambda>d. d \<le> c \<and> c < d + 10) decimal_runs \<or> (120782 \<le> c \<and> c < 120832)"

definition is_closer :: "nat \<Rightarrow> bool" where
  "is_closer c \<longleftrightarrow> c = 46 \<or> c = 41"

definition is_bullet :: "nat \<Rightarrow> bool" where
  "is_bullet c \<longleftrightarrow> c = 0x2022 \<or> c = 45 \<or> c = 42"

text \<open>
  \<^verbatim>\<open>re.match(r"^\s*\d+[\.\)]\s+", text)\<close> and
  \<^verbatim>\<open>re.match(r"^\s*[\<bullet>\-\*\u2022]\s+", text)\<close>: \<open>None\<close> when there is no match, otherwise
  the length of the match. The classes that follow one another in a pattern are
  disjoint, so the greedy scan from the left finds the match if there is one. With the
  anchor, \<^verbatim>\<open>re.sub(pattern, "", text, count=1)\<close> removes exactly this match.
\<close>

definition match_number :: "ustring \<Rightarrow> nat option" where
  "match_number t =
     (let n0 = length (takeWhile py_isspace t); r1 = drop n0 t;
          n1 = length (takeWhile py_isdecimal r1); r2 = drop n1 r1
      in if n1 = 0 then None
         else (case r2 of
                 [] \<Rightarrow> None
               | c # r3 \<Rightarrow>
                   if is_closer c
                   then (let n3 = length (takeWhile py_isspace r3)
                         in if n3 = 0 then None else Some (n0 + n1 + 1 + n3))
                   else None))"

definition match_bullet :: "ustring \<Rightarrow> nat option" where
  "match_bullet t =
     (let n0 = length (takeWhile py_isspace t); r1 = drop n0 t
      in (case r1 of
            [] \<Rightarrow> None
          | c # r2 \<Rightarrow>
              if is_bullet c
              then (let n2 = length (takeWhile py_isspace r2)
                    in if n2 = 0 then None else Some (n0 + 1 + n2))
              else None))"

text \<open>
  What the two patterns say, as sets of strings: a text matches when it starts with a
  word of the pattern's language.
\<close>

definition number_pattern :: "ustring \<Rightarrow> bool" where
  "number_pattern t \<longleftrightarrow>
     (\<exists>ws ds c ws' rest. t = ws @ ds @ [c] @ ws' @ rest \<and>
        list_all py_isspace ws \<and> ds \<noteq> [] \<and> list_all py_isdecimal ds \<and> is_closer c \<and>
        ws' \<noteq> [] \<and> list_all py_isspace ws')"

definition bullet_pattern :: "ustring \<Rightarrow> bool" where
  "bullet_pattern t \<longleftrightarrow>
     (\<exists>ws c ws' rest. t = ws @ [c] @ ws' @ rest \<and>
        list_all py_isspace ws \<and> is_bullet c \<and> ws' \<noteq> [] \<and> list_all py_isspace ws')"

text \<open>
  A line with a numbered, or a bulleted, marker, and the text that follows the marker,
  trimmed: the marker is the longest match of the pattern at the start of the line.
\<close>

definition numbered_line :: "ustring \<Rightarrow> ustring \<Rightarrow> bool" where
  "numbered_line t body \<longleftrightarrow>
     (\<exists>ws ds c ws' rest. t = ws @ ds @ [c] @ ws' @ rest \<and>
        list_all py_isspace ws \<and> ds \<noteq> [] \<and> list_all py_isdecimal ds \<and> is_closer c \<and>
        ws' \<noteq> [] \<and> list_all py_isspace ws' \<and> (rest = [] \<or> \<not> py_isspace (hd rest)) \<and>
        body = py_strip rest)"

definition bulleted_line :: "ustring \<Rightarrow> ustring \<Rightarrow> bool" where
  "bulleted_line t body \<longleftrightarrow>
     (\<exists>ws c ws' rest. t = ws @ [c] @ ws' @ rest \<and>
        list_all py_isspace ws \<and> is_bullet c \<and>
        ws' \<noteq> [] \<and> list_all py_isspace ws' \<and> (rest = [] \<or> \<not> py_isspace (hd rest)) \<and>
        body = py_strip rest)"

section \<open>Page Structurer: \<^verbatim>\<open>translate_pdf_to_word_with_styles_improved\<close>\<close>

text \<open>
  The calls on the output document, in order: \<^verbatim>\<open>add_heading\<close>, \<^verbatim>\<open>add_paragraph\<close>
  (with its style and its left indent in points), \<^verbatim>\<open>add_table\<close> (with the texts put
  into its cells), \<^verbatim>\<open>add_picture\<close> and \<^verbatim>\<open>add_page_break\<close>.
\<close>

datatype style = ListNumber | ListBullet

datatype item =
    Heading nat
  | Paragraph ustring "style option" real
  | Table nat nat "ustring list list"
  | Picture bytes
  | PageBreak

record page =
  page_blocks :: "block list"
  page_images :: "int list"

record pdf =
  pdf_pages :: "page list"
  pdf_extract_image :: "int \<Rightarrow> exn + bytes option"

text \<open>The table path: one row of cells, then all rows.\<close>

fun translate_cells :: "'s translator \<Rightarrow> ustring list \<Rightarrow> nat list \<Rightarrow> 's \<Rightarrow> ustring list \<times> 's" where
  "translate_cells tr row [] s = ([], s)"
| "translate_cells tr row (j # js) s =
     (let cell_text = (if j < length row then row ! j else []);
          (translated_cell, s1) = translate_text tr cell_text s;
          (rest, s2) = translate_cells tr row js s1
      in (final_text translated_cell cell_text # rest, s2))"

fun translate_rows ::
  "'s translator \<Rightarrow> nat \<Rightarrow> ustring list list \<Rightarrow> 's \<Rightarrow> ustring list list \<times> 's" where
  "translate_rows tr num_cols [] s = ([], s)"
| "translate_rows tr num_cols (row # rows) s =
     (let (cells, s1) = translate_cells tr row [0..<num_cols] s;
          (rest, s2) = translate_rows tr num_cols rows s1
      in (cells # rest, s2))"

definition table_data :: "block \<Rightarrow> ustring list list" where
  "table_data b = map (\<lambda>l. merge_spans_for_table (line_spans l) 10) (block_lines b)"

definition table_path :: "'s translator \<Rightarrow> block \<Rightarrow> 's \<Rightarrow> item list \<times> 's" where
  "table_path tr b s =
     (let num_rows = length (table_data b);
          num_cols = (if table_data b \<noteq> [] then length (hd (table_data b)) else 0)
      in if num_cols = 0 then ([], s)
         else (let (cells, s1) = translate_rows tr num_cols (table_data b) s
               in ([Table num_rows num_cols cells], s1)))"

text \<open>
  The pairs \<^verbatim>\<open>(line_text, first_x)\<close> of the lines whose text is not blank.
\<close>

definition lines_info_of :: "real \<Rightarrow> block \<Rightarrow> (ustring \<times> real) list" where
  "lines_info_of page_left_margin b =
     concat (map (\<lambda>l. let spans = line_spans l; line_text = join_spans spans 3
                      in if py_strip line_text \<noteq> []
                         then [(line_text,
                                if spans \<noteq> [] then left_x (hd spans) else page_left_margin)]
                         else [])
                 (block_lines b))"

definition is_list :: "(ustring \<times> real) list \<Rightarrow> bool" where
  "is_list lines_info =
     list_all (\<lambda>(t, first_x). match_number t \<noteq> None \<or> match_bullet t \<noteq> None) lines_info"

definition list_marker :: "ustring \<Rightarrow> style option \<times> ustring" where
  "list_marker t =
     (case match_number t of
        Some n \<Rightarrow> (Some ListNumber, py_strip (drop n t))
      | None \<Rightarrow>
          (case match_bullet t of
             Some n \<Rightarrow> (Some ListBullet, py_strip (drop n t))
           | None \<Rightarrow> (None, t)))"

fun list_path ::
  "'s translator \<Rightarrow> real \<Rightarrow> (ustring \<times> real) list \<Rightarrow> 's \<Rightarrow> item list \<times> 's" where
  "list_path tr page_left_margin [] s = ([], s)"
| "list_path tr page_left_margin ((t, first_x) # rest) s =
     (let (style, t') = list_marker t;
          (translated, s1) = translate_text tr t' s;
          (items, s2) = list_path tr page_left_margin rest s1
      in (Paragraph (final_text translated t') style (first_x - page_left_margin) # items, s2))"

fun py_join :: "ustring \<Rightarrow> ustring list \<Rightarrow> ustring" where
  "py_join sep [] = []"
| "py_join sep [x] = x"
| "py_join sep (x # y # rest) = x @ sep @ py_join sep (y # rest)"

definition paragraph_path ::
  "'s translator \<Rightarrow> real \<Rightarrow> (ustring \<times> real) list \<Rightarrow> 's \<Rightarrow> item list \<times> 's" where
  "paragraph_path tr page_left_margin lines_info s =
     (let combined_text = py_join [10] (map fst lines_info);
          (translated_block, s1) = translate_text tr combined_text s
      in ([Paragraph (final_text translated_block combined_text) None
             (snd (hd lines_info) - page_left_margin)], s1))"

text \<open>
  The route a text block takes through the chain of tests: the table heuristic first,
  then the \<^verbatim>\<open>continue\<close> on an empty \<^verbatim>\<open>lines_info\<close>, then \<^verbatim>\<open>is_list\<close>.
\<close>

datatype route = TableRoute | SkipRoute | ListRoute | ParagraphRoute

definition block_route :: "real \<Rightarrow> block \<Rightarrow> route" where
  "block_route page_left_margin b =
     (if is_table_block b 10 then TableRoute
      else (let lines_info = lines_info_of page_left_margin b
            in if lines_info = [] then SkipRoute
               else if is_list lines_info then ListRoute
               else ParagraphRoute))"

definition text_block :: "'s translator \<Rightarrow> real \<Rightarrow> block \<Rightarrow> 's \<Rightarrow> item list \<times> 's" where
  "text_block tr page_left_margin b s =
     (case block_route page_left_margin b of
        TableRoute \<Rightarrow> table_path tr b s
      | SkipRoute \<Rightarrow> ([], s)
      | ListRoute \<Rightarrow> list_path tr page_left_margin (lines_info_of page_left_margin b) s
      | ParagraphRoute \<Rightarrow>
          paragraph_path tr page_left_margin (lines_info_of page_left_margin b) s)"

text \<open>
  The reconstructed lines of a block, and the lines that \<^verbatim>\<open>lines_info\<close> keeps: those
  with a character that is not whitespace.
\<close>

definition reconstructed_lines :: "block \<Rightarrow> ustring list" where
  "reconstructed_lines b = map (\<lambda>l. join_spans (line_spans l) 3) (block_lines b)"

definition blank :: "ustring \<Rightarrow> bool" where
  "blank t \<longleftrightarrow> list_all py_isspace t"

definition kept_lines :: "block \<Rightarrow> line list" where
  "kept_lines b = filter (\<lambda>l. \<not> blank (join_spans (line_spans l) 3)) (block_lines b)"

text \<open>
  Images. A payload is resolved when the block, or the entry of the page's image list,
  yields a non-empty byte string; every failure on the way (no reference, a reference
  of another type, a raise of the extractor, no or empty data) skips the image before
  its key is computed. The function that computes the key is an argument of the
  definitions that follow; the program's \<^verbatim>\<open>get_image_key\<close> is defined after them.
\<close>

definition usable :: "bytes option \<Rightarrow> bytes option" where
  "usable r = (case r of None \<Rightarrow> None | Some img_bytes \<Rightarrow> if img_bytes = [] then None else Some img_bytes)"

definition block_payload :: "(int \<Rightarrow> exn + bytes option) \<Rightarrow> block \<Rightarrow> bytes option" where
  "block_payload extract_image b =
     (case (case block_xref b of None \<Rightarrow> block_image b | Some r \<Rightarrow> Some r) of
        None \<Rightarrow> None
      | Some (RefBytes img_bytes) \<Rightarrow> usable (Some img_bytes)
      | Some (RefInt xref) \<Rightarrow>
          (case extract_image xref of Inl e \<Rightarrow> None | Inr img \<Rightarrow> usable img)
      | Some RefOther \<Rightarrow> None)"

definition fallback_payload :: "(int \<Rightarrow> exn + bytes option) \<Rightarrow> int \<Rightarrow> bytes option" where
  "fallback_payload extract_image xref =
     (case extract_image xref of Inl e \<Rightarrow> None | Inr img \<Rightarrow> usable img)"

definition add_image :: "(bytes \<Rightarrow> 'k) \<Rightarrow> bytes option \<Rightarrow> 'k set \<Rightarrow> item list \<times> 'k set" where
  "add_image get_image_key payload processed_keys =
     (case payload of
        None \<Rightarrow> ([], processed_keys)
      | Some img_bytes \<Rightarrow>
          (let key = get_image_key img_bytes
           in if key \<in> processed_keys then ([], processed_keys)
              else ([Picture img_bytes], insert key processed_keys)))"

definition process_block ::
  "(bytes \<Rightarrow> 'k) \<Rightarrow> 's translator \<Rightarrow> (int \<Rightarrow> exn + bytes option) \<Rightarrow> real \<Rightarrow> block \<Rightarrow>
     's \<times> 'k set \<Rightarrow> item list \<times> ('s \<times> 'k set)" where
  "process_block get_image_key tr extract_image page_left_margin b st =
     (if block_type b = Some 0
      then (let (items, s1) = text_block tr page_left_margin b (fst st) in (items, (s1, snd st)))
      else if block_type b = Some 1
      then (let (items, keys1) = add_image get_image_key (block_payload extract_image b) (snd st)
            in (items, (fst st, keys1)))
      else ([], st))"

text \<open>
  The loop over the sorted blocks. It keeps, for each block in processing order, the
  items emitted while that block was processed; the document receives them in this
  order.
\<close>

fun process_blocks ::
  "(bytes \<Rightarrow> 'k) \<Rightarrow> 's translator \<Rightarrow> (int \<Rightarrow> exn + bytes option) \<Rightarrow> real \<Rightarrow> block list \<Rightarrow>
     's \<times> 'k set \<Rightarrow> (block \<times> item list) list \<times> ('s \<times> 'k set)" where
  "process_blocks get_image_key tr extract_image page_left_margin [] st = ([], st)"
| "process_blocks get_image_key tr extract_image page_left_margin (b # bs) st =
     (let (items, st1) = process_block get_image_key tr extract_image page_left_margin b st;
          (rest, st2) = process_blocks get_image_key tr extract_image page_left_margin bs st1
      in ((b, items) # rest, st2))"

fun fallback_images ::
  "(bytes \<Rightarrow> 'k) \<Rightarrow> (int \<Rightarrow> exn + bytes option) \<Rightarrow> int list \<Rightarrow> 'k set \<Rightarrow> item list \<times> 'k set" where
  "fallback_images get_image_key extract_image [] keys = ([], keys)"
| "fallback_images get_image_key extract_image (xref # rest) keys =
     (let (items, keys1) = add_image get_image_key (fallback_payload extract_image xref) keys;
          (more, keys2) = fallback_images get_image_key extract_image rest keys1
      in (items @ more, keys2))"

text \<open>
  \<^verbatim>\<open>all_x\<close>, the left edge of the first span (in the extractor's order) of every line
  with spans in a text block, and \<^verbatim>\<open>min(all_x) if all_x else 0\<close>.
\<close>

definition all_x :: "block list \<Rightarrow> real list" where
  "all_x blocks =
     concat (map (\<lambda>b. if block_type b = Some 0
                      then concat (map (\<lambda>l. if line_spans l \<noteq> [] then [left_x (hd (line_spans l))] else [])
                                       (block_lines b))
                      else [])
                 blocks)"

definition page_left_margin :: "block list \<Rightarrow> real" where
  "page_left_margin blocks =
     (if all_x blocks \<noteq> [] then fold min (tl (all_x blocks)) (hd (all_x blocks)) else 0)"

definition sorted_blocks :: "page \<Rightarrow> block list" where
  "sorted_blocks pg = sort_key top_y (page_blocks pg)"

definition page_groups ::
  "(bytes \<Rightarrow> 'k) \<Rightarrow> 's translator \<Rightarrow> (int \<Rightarrow> exn + bytes option) \<Rightarrow> page \<Rightarrow> 's \<times> 'k set \<Rightarrow>
     (block \<times> item list) list \<times> ('s \<times> 'k set)" where
  "page_groups get_image_key tr extract_image pg st =
     process_blocks get_image_key tr extract_image (page_left_margin (sorted_blocks pg))
       (sorted_blocks pg) st"

definition process_page ::
  "(bytes \<Rightarrow> 'k) \<Rightarrow> 's translator \<Rightarrow> (int \<Rightarrow> exn + bytes option) \<Rightarrow> nat \<Rightarrow> page \<Rightarrow>
     's \<times> 'k set \<Rightarrow> item list \<times> ('s \<times> 'k set)" where
  "process_page get_image_key tr extract_image page_num pg st =
     (let (groups, st1) = page_groups get_image_key tr extract_image pg st;
          (images, keys2) = fallback_images get_image_key extract_image (page_images pg) (snd st1)
      in ([Heading (page_num + 1)] @ concat (map snd groups) @ images @ [PageBreak],
          (fst st1, keys2)))"

fun process_pages ::
  "(bytes \<Rightarrow> 'k) \<Rightarrow> 's translator \<Rightarrow> (int \<Rightarrow> exn + bytes option) \<Rightarrow> nat \<Rightarrow> page list \<Rightarrow>
     's \<times> 'k set \<Rightarrow> item list \<times> ('s \<times> 'k set)" where
  "process_pages get_image_key tr extract_image page_num [] st = ([], st)"
| "process_pages get_image_key tr extract_image page_num (pg # pgs) st =
     (let (items, st1) = process_page get_image_key tr extract_image page_num pg st;
          (rest, st2) = process_pages get_image_key tr extract_image (Suc page_num) pgs st1
      in (items @ rest, st2))"

text \<open>
  One conversion: \<^verbatim>\<open>processed_keys = set()\<close>, then the pages in order. The result is
  the sequence of calls on the output document and the translator's state at the end.
\<close>

definition translate_pdf :: "(bytes \<Rightarrow> 'k) \<Rightarrow> 's translator \<Rightarrow> pdf \<Rightarrow> 's \<Rightarrow> item list \<times> 's" where
  "translate_pdf get_image_key tr doc s =
     (let (items, st) = process_pages get_image_key tr (pdf_extract_image doc) 0 (pdf_pages doc) (s, {})
      in (items, fst st))"

text \<open>
  \<^verbatim>\<open>process_pdf_files_in_directory\<close>: one conversion after the other. Nothing but the
  translator is carried from one file to the next.
\<close>

fun translate_all ::
  "(bytes \<Rightarrow> 'k) \<Rightarrow> 's translator \<Rightarrow> pdf list \<Rightarrow> 's \<Rightarrow> item list list \<times> 's" where
  "translate_all get_image_key tr [] s = ([], s)"
| "translate_all get_image_key tr (doc # docs) s =
     (let (items, s1) = translate_pdf get_image_key tr doc s;
          (rest, s2) = translate_all get_image_key tr docs s1
      in (items # rest, s2))"

section \<open>Image fingerprint: \<^verbatim>\<open>get_image_key\<close>\<close>

text \<open>
  \<^verbatim>\<open>get_image_key\<close> is the hexadecimal MD5 digest of the bytes. \<^verbatim>\<open>hashlib.md5\<close>
  computes the digest of RFC 1321; its 32-bit words are natural numbers below \<open>2 ^ 32\<close>
  here, with the wrap-around of addition and the complement written out. The program
  is \<open>translate_pdf get_image_key\<close>.
\<close>

unbundle bit_operations_syntax

type_synonym w32 = nat

definition md5_K :: "w32 list" where
  "md5_K = [
     0xd76aa478, 0xe8c7b756, 0x242070db, 0xc1bdceee, 0xf57c0faf, 0x4787c62a,
     0xa8304613, 0xfd469501, 0x698098d8, 0x8b44f7af, 0xffff5bb1, 0x895cd7be,
     0x6b901122, 0xfd987193, 0xa679438e, 0x49b40821, 0xf61e2562, 0xc040b340,
     0x265e5a51, 0xe9b6c7aa, 0xd62f105d, 0x02441453, 0xd8a1e681, 0xe7d3fbc8,
     0x21e1cde6, 0xc33707d6, 0xf4d50d87, 0x455a14ed, 0xa9e3e905, 0xfcefa3f8,
     0x676f02d9, 0x8d2a4c8a, 0xfffa3942, 0x8771f681, 0x6d9d6122, 0xfde5380c,
     0xa4beea44, 0x4bdecfa9, 0xf6bb4b60, 0xbebfbc70, 0x289b7ec6, 0xeaa127fa,
     0xd4ef3085, 0x04881d05, 0xd9d4d039, 0xe6db99e5, 0x1fa27cf8, 0xc4ac5665,
     0xf4292244, 0x432aff97, 0xab9423a7, 0xfc93a039, 0x655b59c3, 0x8f0ccc92,
     0xffeff47d, 0x85845dd1, 0x6fa87e4f, 0xfe2ce6e0, 0xa3014314, 0x4e0811a1,
     0xf7537e82, 0xbd3af235, 0x2ad7d2bb, 0xeb86d391]"

definition md5_S :: "nat list" where
  "md5_S = [
     7, 12, 17, 22, 7, 12, 17, 22, 7, 12, 17, 22, 7, 12, 17, 22,
     5, 9, 14, 20, 5, 9, 14, 20, 5, 9, 14, 20, 5, 9, 14, 20,
     4, 11, 16, 23, 4, 11, 16, 23, 4, 11, 16, 23, 4, 11, 16, 23,
     6, 10, 15, 21, 6, 10, 15, 21, 6, 10, 15, 21, 6, 10, 15, 21]"

definition add32 :: "w32 \<Rightarrow> w32 \<Rightarrow> w32" where
  "add32 a b = (a + b) mod 4294967296"

definition not32 :: "w32 \<Rightarrow> w32" where
  "not32 a = 4294967295 - a"

definition rotl32 :: "w32 \<Rightarrow> nat \<Rightarrow> w32" where
  "rotl32 x n = (x * 2 ^ n) mod 4294967296 + x div 2 ^ (32 - n)"

definition md5_F :: "nat \<Rightarrow> w32 \<Rightarrow> w32 \<Rightarrow> w32 \<Rightarrow> w32" where
  "md5_F i B C D =
     (if i < 16 then (B AND C) OR (not32 B AND D)
      else if i < 32 then (D AND B) OR (not32 D AND C)
      else if i < 48 then B XOR C XOR D
      else C XOR (B OR not32 D))"

definition md5_g :: "nat \<Rightarrow> nat" where
  "md5_g i =
     (if i < 16 then i
      else if i < 32 then (5 * i + 1) mod 16
      else if i < 48 then (3 * i + 5) mod 16
      else (7 * i) mod 16)"

type_synonym md5_state = "w32 \<times> w32 \<times> w32 \<times> w32"

fun md5_step :: "w32 list \<Rightarrow> md5_state \<Rightarrow> nat \<Rightarrow> md5_state" where
  "md5_step M (A, B, C, D) i =
     (D, add32 B (rotl32 (add32 (add32 (add32 (md5_F i B C D) A) (md5_K ! i)) (M ! md5_g i))
                    (md5_S ! i)), B, C)"

function md5_rounds :: "w32 list \<Rightarrow> nat \<Rightarrow> md5_state \<Rightarrow> md5_state" where
  "md5_rounds M i st = (if i < 64 then md5_rounds M (i + 1) (md5_step M st i) else st)"
  by pat_completeness auto
termination
  by (relation "measure (\<lambda>(M, i, st). 64 - i)") auto

declare md5_rounds.simps [simp del]

fun md5_add :: "md5_state \<Rightarrow> md5_state \<Rightarrow> md5_state" where
  "md5_add (a0, b0, c0, d0) (A, B, C, D) = (add32 a0 A, add32 b0 B, add32 c0 C, add32 d0 D)"

definition md5_chunk :: "md5_state \<Rightarrow> w32 list \<Rightarrow> md5_state" where
  "md5_chunk st M = md5_add st (md5_rounds M 0 st)"

definition md5_pad :: "bytes \<Rightarrow> bytes" where
  "md5_pad msg =
     msg @ [128] @ replicate ((119 - length msg mod 64) mod 64) 0 @
     map (\<lambda>i. of_nat ((8 * length msg) div 256 ^ i)) [0, 1, 2, 3, 4, 5, 6, 7]"

fun le_words :: "bytes \<Rightarrow> w32 list" where
  "le_words (b0 # b1 # b2 # b3 # rest) =
     (unat b0 + 256 * unat b1 + 65536 * unat b2 + 16777216 * unat b3) # le_words rest"
| "le_words _ = []"

fun chunks16 :: "w32 list \<Rightarrow> w32 list list" where
  "chunks16 ws = (if length ws < 16 then [] else take 16 ws # chunks16 (drop 16 ws))"

declare chunks16.simps [simp del]

definition md5_chunks :: "bytes \<Rightarrow> w32 list list" where
  "md5_chunks msg = chunks16 (le_words (md5_pad msg))"

definition md5_digest :: "bytes \<Rightarrow> md5_state" where
  "md5_digest msg =
     foldl md5_chunk (0x67452301, 0xefcdab89, 0x98badcfe, 0x10325476) (md5_chunks msg)"

definition hex_digit :: "nat \<Rightarrow> nat" where
  "hex_digit d = (if d < 10 then 48 + d else 87 + d)"

definition hex_word :: "w32 \<Rightarrow> ustring" where
  "hex_word w =
     concat (map (\<lambda>i. [hex_digit ((w div 256 ^ i) mod 256 div 16), hex_digit ((w div 256 ^ i) mod 16)])
       [0, 1, 2, 3])"

fun hexdigest :: "md5_state \<Rightarrow> ustring" where
  "hexdigest (a, b, c, d) = hex_word a @ hex_word b @ hex_word c @ hex_word d"

definition get_image_key :: "bytes \<Rightarrow> ustring" where
  "get_image_key img_bytes = hexdigest (md5_digest img_bytes)"

section \<open>Image Deduplicator: what is emitted\<close>

text \<open>
  The byte payloads handed to \<^verbatim>\<open>add_picture\<close>, in order; the payloads that one page
  and one document resolve, in processing order (the image blocks of a page in sorted
  order, then the page's image list); and the entries of a list whose key no earlier
  entry has.
\<close>

definition pictures :: "item list \<Rightarrow> bytes list" where
  "pictures items = concat (map (\<lambda>it. case it of Picture img \<Rightarrow> [img] | _ \<Rightarrow> []) items)"

definition resolved :: "bytes option list \<Rightarrow> bytes list" where
  "resolved rs = concat (map (\<lambda>r. case r of None \<Rightarrow> [] | Some img \<Rightarrow> [img]) rs)"

definition block_payloads :: "(int \<Rightarrow> exn + bytes option) \<Rightarrow> block list \<Rightarrow> bytes list" where
  "block_payloads extract_image blocks =
     resolved (map (block_payload extract_image) (filter (\<lambda>b. block_type b = Some 1) blocks))"

definition page_payloads :: "(int \<Rightarrow> exn + bytes option) \<Rightarrow> page \<Rightarrow> bytes list" where
  "page_payloads extract_image pg =
     block_payloads extract_image (sorted_blocks pg) @
     resolved (map (fallback_payload extract_image) (page_images pg))"

definition pdf_payloads :: "pdf \<Rightarrow> bytes list" where
  "pdf_payloads doc = concat (map (page_payloads (pdf_extract_image doc)) (pdf_pages doc))"

definition first_by :: "('a \<Rightarrow> 'k) \<Rightarrow> 'a list \<Rightarrow> 'a list" where
  "first_by key ps =
     map (\<lambda>i. ps ! i) (filter (\<lambda>i. \<forall>j<i. key (ps ! j) \<noteq> key (ps ! i)) [0..<length ps])"

fun dedup :: "('a \<Rightarrow> 'k) \<Rightarrow> 'k set \<Rightarrow> 'a list \<Rightarrow> 'a list" where
  "dedup key seen [] = []"
| "dedup key seen (p # ps) =
     (if key p \<in> seen then dedup key seen ps else p # dedup key (insert (key p) seen) ps)"

section \<open>Example inputs\<close>

definition mk_span :: "string \<Rightarrow> real \<Rightarrow> real \<Rightarrow> span" where
  "mk_span t a b = \<lparr>span_text = ustr t, span_bbox = \<lparr>x0 = a, y0 = 0, x1 = b, y1 = 10\<rparr>\<rparr>"

definition mk_line :: "span list \<Rightarrow> line" where
  "mk_line ss = \<lparr>line_spans = ss\<rparr>"

definition text_block_of :: "real \<Rightarrow> line list \<Rightarrow> block" where
  "text_block_of y ls =
     \<lparr>block_type = Some 0, block_bbox = \<lparr>x0 = 0, y0 = y, x1 = 100, y1 = y + 10\<rparr>,
      block_lines = ls, block_xref = None, block_image = None\<rparr>"

definition ex_table :: block where
  "ex_table = text_block_of 0
     [mk_line [mk_span ''A'' 0 10, mk_span ''B'' 50 60],
      mk_line [mk_span ''C'' 0 10, mk_span ''D'' 50 60]]"

definition ex_ragged :: block where
  "ex_ragged = text_block_of 0
     [mk_line [mk_span ''A'' 0 10, mk_span ''B'' 50 60, mk_span ''E'' 80 90],
      mk_line [mk_span ''C'' 0 10, mk_span ''D'' 50 60]]"

text \<open>
  Translator stubs whose state counts the invocations: one always answers with two
  Chinese characters and a trailing space, one always answers in Latin script, one always
  raises, and one raises twice and answers in Chinese from the third invocation on.
\<close>

definition tr_chinese :: "nat translator" where
  "tr_chinese = (\<lambda>n p. (Inr [20013, 25991, 32], Suc n))"

definition tr_latin :: "nat translator" where
  "tr_latin = (\<lambda>n p. (Inr (ustr ''hello''), Suc n))"

definition tr_raises :: "nat translator" where
  "tr_raises = (\<lambda>n p. (Inl (Exception ''out of memory''), Suc n))"

definition tr_third :: "nat translator" where
  "tr_third = (\<lambda>n p. (if n < 2 then Inl (Exception ''busy'') else Inr [20013, 25991], Suc n))"

text \<open>
  A translator that answers in Chinese on its first invocation and raises on every later
  one: what a page emits with it depends on which text is translated first.
\<close>

definition tr_once :: "nat translator" where
  "tr_once = (\<lambda>n p. (if n = 0 then Inr [20013, 25991] else Inl (Exception ''quota''), Suc n))"

definition ex_para :: block where
  "ex_para = text_block_of 20 [mk_line [mk_span ''Hello'' 5 30], mk_line [mk_span '' '' 0 3],
     mk_line [mk_span ''there'' 7 30]]"

definition ex_page :: page where
  "ex_page = \<lparr>page_blocks = [ex_para, ex_table], page_images = []\<rparr>"

definition ex_list :: block where
  "ex_list = text_block_of 0 [mk_line [mk_span ''1. First'' 0 40], mk_line [mk_span ''- Second'' 0 40]]"

definition ex_list_blank :: block where
  "ex_list_blank = text_block_of 0 [mk_line [mk_span ''1. First'' 0 40], mk_line [mk_span '' '' 0 3]]"

definition image_block_of :: "real \<Rightarrow> img_ref \<Rightarrow> block" where
  "image_block_of y r =
     \<lparr>block_type = Some 1, block_bbox = \<lparr>x0 = 0, y0 = y, x1 = 100, y1 = y + 10\<rparr>,
      block_lines = [], block_xref = None, block_image = Some r\<rparr>"

definition two_images :: "bytes \<Rightarrow> bytes \<Rightarrow> pdf" where
  "two_images p q =
     \<lparr>pdf_pages = [\<lparr>page_blocks = [image_block_of 20 (RefBytes q), image_block_of 0 (RefBytes p)],
                    page_images = []\<rparr>],
      pdf_extract_image = (\<lambda>x. Inl (Exception ''no such object''))\<rparr>"

text \<open>
  Two different messages of 128 bytes with the same MD5 digest (the collision published
  by Wang and Yu in 2005).
\<close>

definition collision_a :: bytes where
  "collision_a = [
     0xd1, 0x31, 0xdd, 0x02, 0xc5, 0xe6, 0xee, 0xc4, 0x69, 0x3d, 0x9a, 0x06, 0x98, 0xaf, 0xf9, 0x5c,
     0x2f, 0xca, 0xb5, 0x87, 0x12, 0x46, 0x7e, 0xab, 0x40, 0x04, 0x58, 0x3e, 0xb8, 0xfb, 0x7f, 0x89,
     0x55, 0xad, 0x34, 0x06, 0x09, 0xf4, 0xb3, 0x02, 0x83, 0xe4, 0x88, 0x83, 0x25, 0x71, 0x41, 0x5a,
     0x08, 0x51, 0x25, 0xe8, 0xf7, 0xcd, 0xc9, 0x9f, 0xd9, 0x1d, 0xbd, 0xf2, 0x80, 0x37, 0x3c, 0x5b,
     0xd8, 0x82, 0x3e, 0x31, 0x56, 0x34, 0x8f, 0x5b, 0xae, 0x6d, 0xac, 0xd4, 0x36, 0xc9, 0x19, 0xc6,
     0xdd, 0x53, 0xe2, 0xb4, 0x87, 0xda, 0x03, 0xfd, 0x02, 0x39, 0x63, 0x06, 0xd2, 0x48, 0xcd, 0xa0,
     0xe9, 0x9f, 0x33, 0x42, 0x0f, 0x57, 0x7e, 0xe8, 0xce, 0x54, 0xb6, 0x70, 0x80, 0xa8, 0x0d, 0x1e,
     0xc6, 0x98, 0x21, 0xbc, 0xb6, 0xa8, 0x83, 0x93, 0x96, 0xf9, 0x65, 0x2b, 0x6f, 0xf7, 0x2a, 0x70]"

definition collision_b :: bytes where
  "collision_b = [
     0xd1, 0x31, 0xdd, 0x02, 0xc5, 0xe6, 0xee, 0xc4, 0x69, 0x3d, 0x9a, 0x06, 0x98, 0xaf, 0xf9, 0x5c,
     0x2f, 0xca, 0xb5, 0x07, 0x12, 0x46, 0x7e, 0xab, 0x40, 0x04, 0x58, 0x3e, 0xb8, 0xfb, 0x7f, 0x89,
     0x55, 0xad, 0x34, 0x06, 0x09, 0xf4, 0xb3, 0x02, 0x83, 0xe4, 0x88, 0x83, 0x25, 0xf1, 0x41, 0x5a,
     0x08, 0x51, 0x25, 0xe8, 0xf7, 0xcd, 0xc9, 0x9f, 0xd9, 0x1d, 0xbd, 0x72, 0x80, 0x37, 0x3c, 0x5b,
     0xd8, 0x82, 0x3e, 0x31, 0x56, 0x34, 0x8f, 0x5b, 0xae, 0x6d, 0xac, 0xd4, 0x36, 0xc9, 0x19, 0xc6,
     0xdd, 0x53, 0xe2, 0x34, 0x87, 0xda, 0x03, 0xfd, 0x02, 0x39, 0x63, 0x06, 0xd2, 0x48, 0xcd, 0xa0,
     0xe9, 0x9f, 0x33, 0x42, 0x0f, 0x57, 0x7e, 0xe8, 0xce, 0x54, 0xb6, 0x70, 0x80, 0x28, 0x0d, 0x1e,
     0xc6, 0x98, 0x21, 0xbc, 0xb6, 0xa8, 0x83, 0x93, 0x96, 0xf9, 0x65, 0xab, 0x6f, 0xf7, 0x2a, 0x70]"

definition ex_doc :: pdf where
  "ex_doc =
     \<lparr>pdf_pages =
        [\<lparr>page_blocks = [ex_para, image_block_of 0 (RefBytes [0x61, 0x62, 0x63])],
          page_images = [7]\<rparr>,
         \<lparr>page_blocks = [image_block_of 0 (RefInt 7)], page_images = [8, 9, 7]\<rparr>],
      pdf_extract_image =
        (\<lambda>x. if x = 7 then Inr (Some [0x61, 0x62, 0x63]) else if x = 8 then Inr (Some collision_a)
             else Inl (Exception ''no such object''))\<rparr>"

section \<open>Properties of the Span Reassembler\<close>

lemma map_upt_shift: "map f [0..<Suc n] = f 0 # map (\<lambda>i. f (Suc i)) [0..<n]"
proof -
  have "[0..<Suc n] = 0 # map Suc [0..<n]"
    by (simp add: upt_conv_Cons map_Suc_upt del: upt_Suc)
  then show ?thesis
    by (simp only: list.map map_map comp_def)
qed

lemma join_loop_pieces:
  "join_loop thr ss acc (right_x p) =
     acc @ concat (map (\<lambda>i. spaced_piece thr (p # ss) (Suc i)) [0..<length ss])"
proof (induction ss arbitrary: acc p)
  case Nil
  show ?case by simp
next
  case (Cons s rest)
  have "join_loop thr (s # rest) acc (right_x p) =
        join_loop thr rest (acc @ spaced_piece thr (p # s # rest) (Suc 0)) (right_x s)"
    by (simp add: spaced_piece_def)
  also have "\<dots> = acc @ spaced_piece thr (p # s # rest) (Suc 0) @
        concat (map (\<lambda>i. spaced_piece thr (s # rest) (Suc i)) [0..<length rest])"
    by (simp add: Cons.IH)
  also have "\<dots> = acc @
        concat (map (\<lambda>i. spaced_piece thr (p # s # rest) (Suc i)) [0..<length (s # rest)])"
    by (simp add: map_upt_shift spaced_piece_def del: upt_Suc)
  finally show ?case .
qed

lemma join_spans_sorted_list:
  assumes "ss \<noteq> []"
  shows "join_loop thr (tl ss) (span_text (hd ss)) (right_x (hd ss)) = spaced_concat thr ss"
proof -
  obtain p rest where ss: "ss = p # rest"
    using assms by (cases ss) auto
  have "spaced_piece thr (p # rest) 0 = span_text p"
    by (simp add: spaced_piece_def)
  then show ?thesis
    by (simp add: ss spaced_concat_def join_loop_pieces map_upt_shift del: upt_Suc)
qed

text \<open>
  Claim C1. For a non-empty list of spans, \<open>join_spans\<close> with threshold 3 returns the
  concatenation of the span texts taken in ascending order of the left edge (the stable
  sort of the spans, a permutation of them), a single space being put before a span's
  text exactly when its left edge minus the right edge of the span processed before it
  is strictly greater than 3; for the empty list it returns the empty string.
\<close>

theorem join_spans_spec:
  "join_spans [] 3 = [] \<and>
   (spans \<noteq> [] \<longrightarrow>
      join_spans spans 3 = spaced_concat 3 (sort_key left_x spans) \<and>
      sorted (map left_x (sort_key left_x spans)) \<and>
      mset (sort_key left_x spans) = mset spans)"
proof -
  have "sort_key left_x spans \<noteq> []" if "spans \<noteq> []"
    using that by (metis length_sort list.size(3) length_0_conv)
  then show ?thesis
    by (simp add: join_spans_def Let_def join_spans_sorted_list)
qed

theorem join_spans_spec_witness:
  "[mk_span ''World'' 40 70, mk_span ''Hello'' 0 30] \<noteq> [] \<and>
   join_spans [mk_span ''World'' 40 70, mk_span ''Hello'' 0 30] 3 = ustr ''Hello World'' \<and>
   spaced_concat 3 (sort_key left_x [mk_span ''World'' 31 70, mk_span ''Hello'' 0 30]) =
     ustr ''HelloWorld''"
  using join_spans_spec [of "[mk_span ''World'' 40 70, mk_span ''Hello'' 0 30]"]
    join_spans_spec [of "[mk_span ''World'' 31 70, mk_span ''Hello'' 0 30]"]
  by (simp add: spaced_concat_def spaced_piece_def mk_span_def left_x_def right_x_def ustr_def)


section \<open>Properties of the Table Heuristic\<close>

lemma cell_groups_nonempty: "ss \<noteq> [] \<Longrightarrow> cell_groups thr ss \<noteq> []"
  by (induction thr ss rule: cell_groups.induct) auto

lemma cell_groups_no_empty: "[] \<notin> set (cell_groups thr ss)"
proof (induction thr ss rule: cell_groups.induct)
  case (3 thr s t rest)
  have "cell_groups thr (t # rest) \<noteq> []" by (simp add: cell_groups_nonempty)
  then obtain g gs where G: "cell_groups thr (t # rest) = g # gs" by (cases "cell_groups thr (t # rest)") auto
  with 3 show ?case by auto
qed auto

lemma cell_groups_hd: "hd (hd (cell_groups thr (s # ss))) = s"
  by (induction thr "s # ss" arbitrary: s ss rule: cell_groups.induct) auto

lemma cell_groups_concat: "concat (cell_groups thr ss) = ss"
proof (induction thr ss rule: cell_groups.induct)
  case (3 thr s t rest)
  have "cell_groups thr (t # rest) \<noteq> []" by (simp add: cell_groups_nonempty)
  then obtain g gs where G: "cell_groups thr (t # rest) = g # gs" by (cases "cell_groups thr (t # rest)") auto
  with 3 show ?case by auto
qed auto

lemma close_run_nth: "close_run thr g \<Longrightarrow> Suc i < length g \<Longrightarrow> left_x (g ! Suc i) - right_x (g ! i) < thr"
proof (induction thr g arbitrary: i rule: close_run.induct)
  case (1 thr s t rest)
  then show ?case by (cases i) auto
qed auto

lemma cell_groups_close: "g \<in> set (cell_groups thr ss) \<Longrightarrow> close_run thr g"
proof (induction thr ss arbitrary: g rule: cell_groups.induct)
  case (3 thr s t rest)
  have ne: "cell_groups thr (t # rest) \<noteq> []" by (simp add: cell_groups_nonempty)
  then obtain g0 gs where G: "cell_groups thr (t # rest) = g0 # gs" by (cases "cell_groups thr (t # rest)") auto
  have "g0 \<noteq> []" using cell_groups_no_empty[of thr "t # rest"] G by auto
  moreover have "hd g0 = t" using cell_groups_hd[of thr t rest] G by simp
  ultimately obtain g1 where g0: "g0 = t # g1" by (cases g0) auto
  show ?case
  proof (cases "left_x t - right_x s < thr")
    case True
    with 3 G g0 show ?thesis by auto
  next
    case False
    with 3 G g0 show ?thesis by auto
  qed
qed auto

lemma far_apart_nth: "far_apart thr G \<Longrightarrow> Suc k < length G \<Longrightarrow> left_x (hd (G ! Suc k)) - right_x (last (G ! k)) \<ge> thr"
proof (induction thr G arbitrary: k rule: far_apart.induct)
  case (1 thr g h rest)
  then show ?case by (cases k) auto
qed auto

lemma cell_groups_far: "far_apart thr (cell_groups thr ss)"
proof (induction thr ss rule: cell_groups.induct)
  case (3 thr s t rest)
  have ne: "cell_groups thr (t # rest) \<noteq> []" by (simp add: cell_groups_nonempty)
  then obtain g0 gs where G: "cell_groups thr (t # rest) = g0 # gs" by (cases "cell_groups thr (t # rest)") auto
  have "g0 \<noteq> []" using cell_groups_no_empty[of thr "t # rest"] G by auto
  moreover have "hd g0 = t" using cell_groups_hd[of thr t rest] G by simp
  ultimately obtain g1 where g0: "g0 = t # g1" by (cases g0) auto
  show ?case
  proof (cases "left_x t - right_x s < thr")
    case True
    with 3 G g0 show ?thesis by (cases gs) auto
  next
    case False
    with 3 G g0 show ?thesis by auto
  qed
qed auto

lemma spaced_texts_Cons: "spaced_texts (s # g) = span_text s @ concat (map (\<lambda>u. 32 # span_text u) g)"
  by (induction g arbitrary: s) auto

lemma merge_loop_groups:
  "merge_loop thr ss cells cur (right_x p) =
     cells @ py_strip (cur @ concat (map (\<lambda>u. 32 # span_text u) (tl (hd (cell_groups thr (p # ss)))))) #
       map merged_cell (tl (cell_groups thr (p # ss)))"
proof (induction ss arbitrary: cells cur p)
  case Nil
  show ?case by simp
next
  case (Cons s rest)
  have ne: "cell_groups thr (s # rest) \<noteq> []" by (simp add: cell_groups_nonempty)
  then obtain g0 gs where G: "cell_groups thr (s # rest) = g0 # gs" by (cases "cell_groups thr (s # rest)") auto
  have "g0 \<noteq> []" using cell_groups_no_empty[of thr "s # rest"] G by auto
  moreover have "hd g0 = s" using cell_groups_hd[of thr s rest] G by simp
  ultimately obtain g1 where g0: "g0 = s # g1" by (cases g0) auto
  show ?case
  proof (cases "left_x s - right_x p < thr")
    case True
    then show ?thesis using G g0 by (simp add: Cons.IH)
  next
    case False
    then show ?thesis using G g0 by (simp add: Cons.IH merged_cell_def spaced_texts_Cons)
  qed
qed

lemma merge_sorted_groups:
  "ss \<noteq> [] \<Longrightarrow> merge_loop thr (tl ss) [] (span_text (hd ss)) (right_x (hd ss)) = map merged_cell (cell_groups thr ss)"
proof -
  assume "ss \<noteq> []"
  then obtain p rest where ss: "ss = p # rest" by (cases ss) auto
  have ne: "cell_groups thr (p # rest) \<noteq> []" by (simp add: cell_groups_nonempty)
  then obtain g0 gs where G: "cell_groups thr (p # rest) = g0 # gs" by (cases "cell_groups thr (p # rest)") auto
  have "g0 \<noteq> []" using cell_groups_no_empty[of thr "p # rest"] G by auto
  moreover have "hd g0 = p" using cell_groups_hd[of thr p rest] G by simp
  ultimately obtain g1 where g0: "g0 = p # g1" by (cases g0) auto
  show ?thesis
    by (simp add: ss merge_loop_groups G g0 merged_cell_def spaced_texts_Cons)
qed

lemma merge_spans_groups:
  "merge_spans_for_table spans thr = map merged_cell (cell_groups thr (sort_key left_x spans))"
  by (simp add: merge_spans_for_table_def Let_def merge_sorted_groups)

lemma py_strip_trimmed: "trimmed (py_strip s)"
proof -
  define a where "a = dropWhile py_isspace s"
  define b where "b = dropWhile py_isspace (rev a)"
  have ab: "a = rev b @ rev (takeWhile py_isspace (rev a))"
    by (metis b_def rev_append rev_rev_ident takeWhile_dropWhile_id)
  have res: "py_strip s = rev b" by (simp add: py_strip_def a_def b_def)
  show ?thesis
  proof (cases "b = []")
    case True
    then show ?thesis by (simp add: res trimmed_def)
  next
    case False
    have "\<not> py_isspace (hd b)" using False by (simp add: b_def hd_dropWhile)
    then have l: "\<not> py_isspace (last (rev b))" using False by (simp add: last_rev)
    have "hd (rev b) = hd a" using ab False by (metis hd_append2 rev_is_Nil_conv)
    moreover have "a \<noteq> []" using ab False by auto
    then have "\<not> py_isspace (hd a)" by (simp add: a_def hd_dropWhile)
    ultimately show ?thesis using l by (simp add: res trimmed_def)
  qed
qed


text \<open>
  Claim C3. Cell merge with threshold 10 works on the spans in ascending order of their
  left edge (the stable sort, a permutation of the spans). The sorted spans are cut into
  consecutive non-empty groups, one per cell: inside a group every span is less than 10
  away from the right edge of the span before it (so it was accumulated into the current
  cell), and the first span of every further group is 10 or more away from the right edge
  of the last span of the group before it (so it started a new cell). Every cell that is
  returned is trimmed of leading and trailing whitespace.
\<close>

theorem merge_spans_for_table_spec:
  "merge_spans_for_table spans 10 = map merged_cell (cell_groups 10 (sort_key left_x spans)) \<and>
   concat (cell_groups 10 (sort_key left_x spans)) = sort_key left_x spans \<and>
   sorted (map left_x (sort_key left_x spans)) \<and>
   mset (sort_key left_x spans) = mset spans \<and>
   (\<forall>g \<in> set (cell_groups 10 (sort_key left_x spans)).
      g \<noteq> [] \<and> (\<forall>i. Suc i < length g \<longrightarrow> left_x (g ! Suc i) - right_x (g ! i) < 10)) \<and>
   (\<forall>k. Suc k < length (cell_groups 10 (sort_key left_x spans)) \<longrightarrow>
      left_x (hd (cell_groups 10 (sort_key left_x spans) ! Suc k)) -
      right_x (last (cell_groups 10 (sort_key left_x spans) ! k)) \<ge> 10) \<and>
   (\<forall>c \<in> set (merge_spans_for_table spans 10). trimmed c)"
proof -
  let ?G = "cell_groups 10 (sort_key left_x spans)"
  have within: "\<forall>g \<in> set ?G. g \<noteq> [] \<and>
      (\<forall>i. Suc i < length g \<longrightarrow> left_x (g ! Suc i) - right_x (g ! i) < 10)"
    using cell_groups_no_empty [of 10 "sort_key left_x spans"]
    by (metis cell_groups_close close_run_nth)
  have between: "\<forall>k. Suc k < length ?G \<longrightarrow>
      left_x (hd (?G ! Suc k)) - right_x (last (?G ! k)) \<ge> 10"
    using far_apart_nth [OF cell_groups_far] by blast
  have trim: "\<forall>c \<in> set (merge_spans_for_table spans 10). trimmed c"
    by (auto simp: merge_spans_groups merged_cell_def py_strip_trimmed)
  show ?thesis
    using within between trim
    by (simp only: merge_spans_groups cell_groups_concat sorted_sort_key mset_sort simp_thms)
qed

theorem merge_spans_for_table_spec_witness:
  "merge_spans_for_table [mk_span ''C'' 100 110, mk_span '' A'' 0 20, mk_span ''B '' 25 40] 10 =
     [ustr ''A B'', ustr ''C''] \<and>
   cell_groups 10 (sort_key left_x [mk_span ''C'' 100 110, mk_span '' A'' 0 20, mk_span ''B '' 25 40]) =
     [[mk_span '' A'' 0 20, mk_span ''B '' 25 40], [mk_span ''C'' 100 110]] \<and>
   trimmed (ustr ''A B'')"
  using merge_spans_for_table_spec
    [of "[mk_span ''C'' 100 110, mk_span '' A'' 0 20, mk_span ''B '' 25 40]"]
  by (simp add: merged_cell_def py_strip_def py_isspace_def mk_span_def left_x_def right_x_def
      ustr_def trimmed_def)

lemma count_loop_eq:
  "count_loop thr ls acc =
     (if \<forall>l \<in> set ls. 2 \<le> length (merge_spans_for_table (line_spans l) thr)
      then Some (acc @ map (\<lambda>l. length (merge_spans_for_table (line_spans l) thr)) ls)
      else None)"
  by (induction ls arbitrary: acc) (auto simp: Let_def)

lemma card_set_one:
  "card (set xs) = 1 \<longleftrightarrow> xs \<noteq> [] \<and> (\<forall>x \<in> set xs. \<forall>y \<in> set xs. x = y)"
proof
  assume "card (set xs) = 1"
  then obtain a where "set xs = {a}" by (auto simp: card_1_singleton_iff)
  then show "xs \<noteq> [] \<and> (\<forall>x \<in> set xs. \<forall>y \<in> set xs. x = y)" by auto
next
  assume a: "xs \<noteq> [] \<and> (\<forall>x \<in> set xs. \<forall>y \<in> set xs. x = y)"
  then obtain a where "a \<in> set xs" by (cases xs) auto
  with a have "set xs = {a}" by auto
  then show "card (set xs) = 1" by simp
qed

lemma is_table_block_iff:
  "is_table_block b 10 \<longleftrightarrow>
     2 \<le> length (block_lines b) \<and>
     (\<forall>l \<in> set (block_lines b). 2 \<le> length (merge_spans_for_table (line_spans l) 10)) \<and>
     (\<forall>l \<in> set (block_lines b). \<forall>l' \<in> set (block_lines b).
        length (merge_spans_for_table (line_spans l) 10) =
        length (merge_spans_for_table (line_spans l') 10))"
proof (cases "2 \<le> length (block_lines b)")
  case False
  then show ?thesis by (simp add: is_table_block_def)
next
  case True
  define f where "f = (\<lambda>l::line. length (merge_spans_for_table (line_spans l) 10))"
  have ne: "map f (block_lines b) \<noteq> []" using True by auto
  show ?thesis
  proof (cases "\<forall>l \<in> set (block_lines b). 2 \<le> f l")
    case False
    then have "count_loop 10 (block_lines b) [] = None"
      by (simp add: count_loop_eq f_def)
    then have "\<not> is_table_block b 10" by (simp add: is_table_block_def Let_def)
    with False show ?thesis by (simp add: f_def)
  next
    case all2: True
    then have "count_loop 10 (block_lines b) [] = Some (map f (block_lines b))"
      by (simp add: count_loop_eq f_def)
    then have "is_table_block b 10 \<longleftrightarrow> card (set (map f (block_lines b))) = 1"
      using True by (simp add: is_table_block_def Let_def)
    also have "\<dots> \<longleftrightarrow> (\<forall>x \<in> set (map f (block_lines b)). \<forall>y \<in> set (map f (block_lines b)). x = y)"
      using ne by (simp only: card_set_one simp_thms)
    also have "\<dots> \<longleftrightarrow> (\<forall>l \<in> set (block_lines b). \<forall>l' \<in> set (block_lines b). f l = f l')"
      by auto
    finally show ?thesis using True all2 by (simp add: f_def)
  qed
qed


lemmas ex_simps = text_block_of_def mk_line_def merge_spans_for_table_def
  mk_span_def left_x_def right_x_def py_strip_def py_isspace_def ustr_def

lemma ex_table_rows:
  "table_data ex_table = [[ustr ''A'', ustr ''B''], [ustr ''C'', ustr ''D'']]"
  by (simp add: table_data_def ex_table_def ex_simps)

lemma ex_ragged_rows:
  "table_data ex_ragged = [[ustr ''A'', ustr ''B'', ustr ''E''], [ustr ''C'', ustr ''D'']]"
  by (simp add: table_data_def ex_ragged_def ex_simps)

lemma ex_table_lines:
  "block_lines ex_table =
     [mk_line [mk_span ''A'' 0 10, mk_span ''B'' 50 60],
      mk_line [mk_span ''C'' 0 10, mk_span ''D'' 50 60]]"
  by (simp add: ex_table_def text_block_of_def)

lemma ex_ragged_lines:
  "block_lines ex_ragged =
     [mk_line [mk_span ''A'' 0 10, mk_span ''B'' 50 60, mk_span ''E'' 80 90],
      mk_line [mk_span ''C'' 0 10, mk_span ''D'' 50 60]]"
  by (simp add: ex_ragged_def text_block_of_def)

lemma ex_table_cells:
  "map (\<lambda>l. merge_spans_for_table (line_spans l) 10) (block_lines ex_table) =
     [[ustr ''A'', ustr ''B''], [ustr ''C'', ustr ''D'']]"
  using ex_table_rows by (simp add: table_data_def)

lemma ex_ragged_cells:
  "map (\<lambda>l. merge_spans_for_table (line_spans l) 10) (block_lines ex_ragged) =
     [[ustr ''A'', ustr ''B'', ustr ''E''], [ustr ''C'', ustr ''D'']]"
  using ex_ragged_rows by (simp add: table_data_def)

lemma ex_table_is_table: "is_table_block ex_table 10"
  using is_table_block_iff [of ex_table] ex_table_cells
  by (simp add: ex_table_lines)

text \<open>
  Claim C2. With threshold 10, \<open>is_table_block\<close> holds of a block if and only if the block
  has at least two lines, every line yields at least two cells after cell merge, and all
  lines yield the same number of cells; so one line with another number of cells, or
  with fewer than two, makes it false.
\<close>

theorem is_table_block_spec:
  "is_table_block b 10 \<longleftrightarrow>
     2 \<le> length (block_lines b) \<and>
     (\<forall>l \<in> set (block_lines b). 2 \<le> length (merge_spans_for_table (line_spans l) 10)) \<and>
     (\<forall>l \<in> set (block_lines b). \<forall>l' \<in> set (block_lines b).
        length (merge_spans_for_table (line_spans l) 10) =
        length (merge_spans_for_table (line_spans l') 10))"
  (is "?table \<longleftrightarrow> ?spec")
proof
  assume ?table
  then show ?spec by (rule iffD1 [OF is_table_block_iff])
next
  assume ?spec
  then show ?table by (rule iffD2 [OF is_table_block_iff])
qed

theorem is_table_block_spec_witness:
  "is_table_block ex_table 10 \<and> \<not> is_table_block ex_ragged 10"
  using is_table_block_spec [of ex_table] is_table_block_spec [of ex_ragged]
    ex_table_cells ex_ragged_cells
  by (simp add: ex_table_lines ex_ragged_lines)

lemma table_rows_rectangular:
  assumes "is_table_block b 10"
  shows table_rows_nonempty: "table_data b \<noteq> []"
    and table_rows_wide: "2 \<le> length (hd (table_data b))"
    and table_rows_same: "\<And>row. row \<in> set (table_data b) \<Longrightarrow>
          length row = length (hd (table_data b))"
proof -
  define f where "f = (\<lambda>l::line. merge_spans_for_table (line_spans l) 10)"
  have td: "table_data b = map f (block_lines b)"
    by (simp add: table_data_def f_def)
  have spec: "2 \<le> length (block_lines b) \<and>
     (\<forall>l \<in> set (block_lines b). 2 \<le> length (f l)) \<and>
     (\<forall>l \<in> set (block_lines b). \<forall>l' \<in> set (block_lines b). length (f l) = length (f l'))"
    using assms unfolding f_def by (rule iffD1 [OF is_table_block_iff])
  then obtain l0 ls where L: "block_lines b = l0 # ls"
    by (cases "block_lines b") auto
  have h: "hd (table_data b) = f l0" by (simp add: td L)
  have l0: "l0 \<in> set (block_lines b)" by (simp add: L)
  show "table_data b \<noteq> []" by (simp add: td L)
  show "2 \<le> length (hd (table_data b))" using spec l0 unfolding h by blast
  show "length row = length (hd (table_data b))" if "row \<in> set (table_data b)" for row
  proof -
    from that obtain l where "l \<in> set (block_lines b)" "row = f l"
      by (auto simp: td)
    then show ?thesis using spec l0 unfolding h by blast
  qed
qed

lemma table_path_emits:
  assumes "is_table_block b 10"
  shows "\<exists>cells. fst (table_path tr b s) =
    [Table (length (block_lines b)) (length (hd (table_data b))) cells]"
proof -
  obtain cells s1
    where tr: "translate_rows tr (length (hd (table_data b))) (table_data b) s = (cells, s1)"
    by (cases "translate_rows tr (length (hd (table_data b))) (table_data b) s")
  have ne: "table_data b \<noteq> []" by (rule table_rows_nonempty [OF assms])
  have "hd (table_data b) \<noteq> []"
    using table_rows_wide [OF assms] by (cases "hd (table_data b)") simp_all
  then have nz: "length (hd (table_data b)) \<noteq> 0" by simp
  have len: "length (table_data b) = length (block_lines b)"
    by (simp add: table_data_def)
  have "fst (table_path tr b s) =
      [Table (length (block_lines b)) (length (hd (table_data b))) cells]"
    unfolding table_path_def Let_def using ne nz len tr by simp
  then show ?thesis ..
qed

text \<open>
  Claim C10. When \<open>is_table_block\<close> accepts a block, the rows that the emission path
  computes again with \<open>merge_spans_for_table\<close> are at least one, and all of them have the
  length of the first row, \<open>num_cols\<close>, which is at least 2. So the guard on
  \<open>num_cols = 0\<close> is never taken (a table is emitted) and every index \<open>j < num_cols\<close> is
  inside its row (no cell is padded with the empty string).
\<close>

theorem table_guard_and_padding_unreachable:
  assumes "is_table_block b 10"
  shows "table_data b \<noteq> [] \<and>
     (if table_data b \<noteq> [] then length (hd (table_data b)) else 0) \<noteq> 0 \<and>
     (\<forall>row \<in> set (table_data b). length row = length (hd (table_data b))) \<and>
     (\<forall>row \<in> set (table_data b). \<forall>j < length (hd (table_data b)).
        (if j < length row then row ! j else []) = row ! j) \<and>
     (\<exists>cells. fst (table_path tr b s) =
        [Table (length (block_lines b)) (length (hd (table_data b))) cells])"
proof -
  have a: "table_data b \<noteq> []"
    by (rule table_rows_nonempty [OF assms])
  have "hd (table_data b) \<noteq> []"
    using table_rows_wide [OF assms] by (cases "hd (table_data b)") simp_all
  then have b: "(if table_data b \<noteq> [] then length (hd (table_data b)) else 0) \<noteq> 0"
    using a by simp
  have c: "\<forall>row \<in> set (table_data b). length row = length (hd (table_data b))"
    using table_rows_same [OF assms] by blast
  have d: "\<forall>row \<in> set (table_data b). \<forall>j < length (hd (table_data b)).
        (if j < length row then row ! j else []) = row ! j"
    using c by simp
  show ?thesis
    by (intro conjI a b c d table_path_emits [OF assms])
qed

theorem table_guard_and_padding_unreachable_witness:
  "is_table_block ex_table 10 \<and>
   table_data ex_table = [[ustr ''A'', ustr ''B''], [ustr ''C'', ustr ''D'']] \<and>
   (\<exists>cells. fst (table_path (\<lambda>s p. (Inl (Exception ''down''), s)) ex_table ()) =
      [Table 2 2 cells])"
proof -
  note t = table_guard_and_padding_unreachable
    [OF ex_table_is_table, of "\<lambda>s p. (Inl (Exception ''down''), s)" "()"]
  have r: "length (block_lines ex_table) = 2"
    by (simp add: ex_table_lines)
  have c: "length (hd (table_data ex_table)) = 2"
    by (simp add: ex_table_rows)
  have e: "\<exists>cells. fst (table_path (\<lambda>s p. (Inl (Exception ''down''), s)) ex_table ()) =
      [Table 2 2 cells]"
    using t [THEN conjunct2, THEN conjunct2, THEN conjunct2, THEN conjunct2]
    unfolding r c .
  show ?thesis
    by (intro conjI ex_table_is_table ex_table_rows e)
qed

section \<open>Properties of the Translation Gate\<close>

lemma translate_loop_end: "\<not> a < m \<Longrightarrow> translate_loop tr t m a s = (None, s)"
  by (subst translate_loop.simps) simp

lemma translate_loop_raise:
  "a < m \<Longrightarrow> tr s (processed_text t) = (Inl e, s') \<Longrightarrow>
   translate_loop tr t m a s = translate_loop tr t m (Suc a) s'"
  by (subst translate_loop.simps) simp

lemma translate_loop_accept:
  "a < m \<Longrightarrow> tr s (processed_text t) = (Inr raw, s') \<Longrightarrow>
   15 / 100 \<le> chinese_ratio (py_strip raw) \<Longrightarrow>
   translate_loop tr t m a s = (Some (py_strip raw), s')"
  by (subst translate_loop.simps) simp

lemma translate_loop_reject:
  "a < m \<Longrightarrow> tr s (processed_text t) = (Inr raw, s') \<Longrightarrow>
   \<not> 15 / 100 \<le> chinese_ratio (py_strip raw) \<Longrightarrow>
   translate_loop tr t m a s = translate_loop tr t m (Suc a) s'"
  by (subst translate_loop.simps) simp

lemma translate_loop_not_accepted:
  assumes "a < m" and "\<not> accepted (fst (tr s (processed_text t)))"
  shows "translate_loop tr t m a s = translate_loop tr t m (Suc a) (snd (tr s (processed_text t)))"
proof (cases "tr s (processed_text t)")
  case (Pair r s')
  show ?thesis
  proof (cases r)
    case (Inl e)
    with Pair assms show ?thesis by (simp add: translate_loop_raise)
  next
    case (Inr raw)
    with Pair assms show ?thesis by (simp add: translate_loop_reject accepted_def)
  qed
qed

lemma translate_loop_skip:
  "a + k \<le> m \<Longrightarrow> (\<forall>i<k. \<not> accepted (attempt_outcome tr (processed_text t) s i)) \<Longrightarrow>
   translate_loop tr t m a s = translate_loop tr t m (a + k) (state_after tr (processed_text t) s k)"
proof (induction k arbitrary: a s)
  case 0
  show ?case by simp
next
  case (Suc k)
  have first: "\<not> accepted (fst (tr s (processed_text t)))"
    using Suc.prems(2) [rule_format, of 0] by (simp add: attempt_outcome_def)
  have rest: "\<forall>i<k. \<not> accepted (attempt_outcome tr (processed_text t) (snd (tr s (processed_text t))) i)"
  proof (intro allI impI)
    fix i assume "i < k"
    then show "\<not> accepted (attempt_outcome tr (processed_text t) (snd (tr s (processed_text t))) i)"
      using Suc.prems(2) [rule_format, of "Suc i"] by (simp add: attempt_outcome_def)
  qed
  have "translate_loop tr t m a s = translate_loop tr t m (Suc a) (snd (tr s (processed_text t)))"
    using Suc.prems(1) first by (intro translate_loop_not_accepted) simp_all
  also have "\<dots> = translate_loop tr t m (Suc a + k)
      (state_after tr (processed_text t) (snd (tr s (processed_text t))) k)"
    using Suc.prems(1) rest by (intro Suc.IH) simp_all
  finally show ?case by simp
qed

lemma translate_loop_Some_ratio:
  "translate_loop tr t m a s = (Some c, s') \<Longrightarrow> 15 / 100 \<le> chinese_ratio c"
proof (induction "m - a" arbitrary: a s)
  case 0
  then show ?case by (simp add: translate_loop_end)
next
  case (Suc n)
  then have am: "a < m" by simp
  obtain r s1 where R: "tr s (processed_text t) = (r, s1)" by (cases "tr s (processed_text t)")
  show ?case
  proof (cases "accepted r")
    case True
    then obtain raw where r: "r = Inr raw" and ok: "15 / 100 \<le> chinese_ratio (py_strip raw)"
      by (cases r) (simp_all add: accepted_def)
    with Suc.prems am R show ?thesis by (simp add: translate_loop_accept)
  next
    case False
    then have "translate_loop tr t m a s = translate_loop tr t m (Suc a) s1"
      using translate_loop_not_accepted [OF am, of tr s t] R by simp
    moreover have "n = m - Suc a" using Suc.hyps(2) by simp
    ultimately show ?thesis using Suc.hyps(1) Suc.prems by simp
  qed
qed

lemma chinese_ratio_empty: "chinese_ratio [] = 0"
  by (simp add: chinese_ratio_def)

lemma final_text_nonempty: 
  assumes "t \<noteq> []" shows "final_text r t \<noteq> []"
  using assms by (cases r) (simp_all add: final_text_def)

lemma counting_step:
  "counting tr (s, n) p = (fst (tr s p), (snd (tr s p), Suc n))"
  by (simp add: counting_def)

lemma counting_loop:
  "\<exists>c. c \<le> m - a \<and> (a < m \<longrightarrow> 1 \<le> c) \<and>
     translate_loop (counting tr) t m a (s, n) =
       (fst (translate_loop tr t m a s), (snd (translate_loop tr t m a s), n + c))"
proof (induction "m - a" arbitrary: a s n)
  case 0
  then show ?case by (simp add: translate_loop_end)
next
  case (Suc k)
  then have am: "a < m" by simp
  obtain r s1 where R: "tr s (processed_text t) = (r, s1)" by (cases "tr s (processed_text t)")
  have C: "counting tr (s, n) (processed_text t) = (r, (s1, Suc n))"
    by (simp add: counting_step R)
  show ?case
  proof (cases "accepted r")
    case True
    then obtain raw where r: "r = Inr raw" and ok: "15 / 100 \<le> chinese_ratio (py_strip raw)"
      by (cases r) (simp_all add: accepted_def)
    have "translate_loop tr t m a s = (Some (py_strip raw), s1)"
      using am R r ok by (simp add: translate_loop_accept)
    moreover have "translate_loop (counting tr) t m a (s, n) = (Some (py_strip raw), (s1, Suc n))"
      using am C r ok by (simp add: translate_loop_accept)
    ultimately show ?thesis using am by (intro exI [of _ 1]) simp
  next
    case False
    have 1: "translate_loop tr t m a s = translate_loop tr t m (Suc a) s1"
      using translate_loop_not_accepted [OF am, of tr s t] R False by simp
    have 2: "translate_loop (counting tr) t m a (s, n) =
        translate_loop (counting tr) t m (Suc a) (s1, Suc n)"
      using translate_loop_not_accepted [OF am, of "counting tr" "(s, n)" t] C False by simp
    have "k = m - Suc a" using Suc.hyps(2) by simp
    from Suc.hyps(1) [OF this, of s1 "Suc n"]
    obtain c where c: "c \<le> m - Suc a"
      and eq: "translate_loop (counting tr) t m (Suc a) (s1, Suc n) =
        (fst (translate_loop tr t m (Suc a) s1), (snd (translate_loop tr t m (Suc a) s1), Suc n + c))"
      by blast
    show ?thesis
      using c am by (intro exI [of _ "Suc c"]) (simp add: 1 2 eq)
  qed
qed

lemma gate_accepts_iff:
  assumes k: "k < 3"
    and before: "\<forall>i<k. \<not> accepted (attempt_outcome tr (processed_text t) s i)"
    and now: "tr (state_after tr (processed_text t) s k) (processed_text t) = (Inr raw, s')"
  shows "translate_text tr t s = (Some (py_strip raw), s') \<longleftrightarrow>
         15 / 100 \<le> chinese_ratio (py_strip raw)"
proof -
  have skip: "translate_text tr t s =
      translate_loop tr t 3 k (state_after tr (processed_text t) s k)"
    using translate_loop_skip [of 0 k 3 tr t s] k before by (simp add: translate_text_def)
  show ?thesis
  proof (cases "15 / 100 \<le> chinese_ratio (py_strip raw)")
    case True
    then show ?thesis using skip k now by (simp add: translate_loop_accept)
  next
    case False
    have "translate_text tr t s = translate_loop tr t 3 (Suc k) s'"
      using skip k now False by (simp add: translate_loop_reject)
    then have "translate_text tr t s \<noteq> (Some (py_strip raw), s')"
      using translate_loop_Some_ratio [of tr t 3 "Suc k" s' "py_strip raw" s'] False by auto
    with False show ?thesis by simp
  qed
qed

lemma chinese_ratio_fraction:
  "chinese_ratio c =
     (if c = [] then 0
      else real (length (filter (\<lambda>x. 0x4E00 \<le> x \<and> x \<le> 0x9FFF) c)) / real (length c))"
proof -
  have "is_chinese = (\<lambda>x. 0x4E00 \<le> x \<and> x \<le> 0x9FFF)"
    by (rule ext) (simp add: is_chinese_def)
  then show ?thesis
    by (simp add: chinese_ratio_def Let_def)
qed

lemma gate_exhausted:
  assumes "\<forall>i<3. \<not> accepted (attempt_outcome tr (processed_text t) s i)"
  shows "translate_text tr t s = (None, state_after tr (processed_text t) s 3)"
  using translate_loop_skip [of 0 3 3 tr t s] assms
  by (simp add: translate_text_def translate_loop_end)

lemma gate_result_nonempty:
  assumes "translate_text tr t s = (Some c, s')" shows "c \<noteq> []"
proof
  assume "c = []"
  moreover have "15 / 100 \<le> chinese_ratio c"
    using assms translate_loop_Some_ratio [of tr t 3 0 s c s'] by (simp add: translate_text_def)
  ultimately show False by (simp add: chinese_ratio_empty)
qed

text \<open>
  Claim C5. When an attempt of the gate is reached (every earlier attempt raised or was
  rejected) and the translator answers, the candidate is the trimmed answer; its ratio is
  the number of its characters in U+4E00..U+9FFF over the number of all its characters,
  0 for the empty candidate; and the gate returns this candidate, with no further
  invocation of the translator, if and only if the ratio is at least 0.15.
\<close>

theorem translation_gate_accepts_iff:
  assumes "k < 3"
    and "\<forall>i<k. \<not> accepted (attempt_outcome tr (processed_text t) s i)"
    and "tr (state_after tr (processed_text t) s k) (processed_text t) = (Inr raw, s')"
  shows "(translate_text tr t s = (Some (py_strip raw), s') \<longleftrightarrow>
            15 / 100 \<le> chinese_ratio (py_strip raw)) \<and>
         chinese_ratio (py_strip raw) =
           (if py_strip raw = [] then 0
            else real (length (filter (\<lambda>x. 0x4E00 \<le> x \<and> x \<le> 0x9FFF) (py_strip raw))) /
                 real (length (py_strip raw)))"
proof
  show "translate_text tr t s = (Some (py_strip raw), s') \<longleftrightarrow>
            15 / 100 \<le> chinese_ratio (py_strip raw)"
    by (rule gate_accepts_iff [OF assms])
  show "chinese_ratio (py_strip raw) =
           (if py_strip raw = [] then 0
            else real (length (filter (\<lambda>x. 0x4E00 \<le> x \<and> x \<le> 0x9FFF) (py_strip raw))) /
                 real (length (py_strip raw)))"
    by (rule chinese_ratio_fraction)
qed

lemma strip_chinese: "py_strip [20013, 25991, 32] = [20013, 25991]"
  by (simp add: py_strip_def py_isspace_def)

lemma ratio_chinese: "chinese_ratio [20013, 25991] = 1"
  by (simp add: chinese_ratio_def is_chinese_def)

lemma ratio_hello: "chinese_ratio (py_strip (ustr ''hello'')) = 0"
  by (simp add: chinese_ratio_def is_chinese_def py_strip_def py_isspace_def ustr_def)

theorem translation_gate_accepts_iff_witness:
  "translate_text tr_chinese (ustr ''hello'') 0 = (Some [20013, 25991], 1) \<and>
   chinese_ratio [20013, 25991] = 1 \<and>
   translate_text tr_latin (ustr ''hello'') 0 \<noteq> (Some (ustr ''hello''), 1)"
proof -
  have a: "translate_text tr_chinese (ustr ''hello'') 0 = (Some [20013, 25991], 1)"
    using translation_gate_accepts_iff
      [of 0 tr_chinese "ustr ''hello''" 0 "[20013, 25991, 32]" 1]
    by (simp add: tr_chinese_def strip_chinese ratio_chinese)
  have b: "translate_text tr_latin (ustr ''hello'') 0 \<noteq> (Some (ustr ''hello''), 1)"
    using translation_gate_accepts_iff
      [of 0 tr_latin "ustr ''hello''" 0 "ustr ''hello''" 1] ratio_hello
    by (simp add: tr_latin_def) (simp add: py_strip_def py_isspace_def ustr_def)
  show ?thesis by (intro conjI a ratio_chinese b)
qed


lemma raises_never_accepted:
  "\<forall>i<3. \<not> accepted (attempt_outcome tr_raises p s i)"
  by (simp add: attempt_outcome_def tr_raises_def accepted_def)

lemma third_result:
  "translate_text tr_third (ustr ''hello'') 0 = (Some [20013, 25991], 3)"
proof -
  have strip: "py_strip [20013, 25991] = [20013, 25991]"
    by (simp add: py_strip_def py_isspace_def)
  have "translate_loop tr_third (ustr ''hello'') 3 0 0 = translate_loop tr_third (ustr ''hello'') 3 1 1"
    using translate_loop_raise [of 0 3 tr_third 0 "ustr ''hello''" "Exception ''busy''" 1]
    by (simp add: tr_third_def)
  also have "\<dots> = translate_loop tr_third (ustr ''hello'') 3 2 2"
    using translate_loop_raise [of 1 3 tr_third 1 "ustr ''hello''" "Exception ''busy''" 2]
    by (simp add: tr_third_def numeral_2_eq_2)
  also have "\<dots> = (Some [20013, 25991], 3)"
    using translate_loop_accept [of 2 3 tr_third 2 "ustr ''hello''" "[20013, 25991]" 3]
    by (simp add: tr_third_def strip ratio_chinese numeral_3_eq_3 numeral_2_eq_2)
  finally show ?thesis by (simp add: translate_text_def)
qed

text \<open>
  Claim C6. The gate invokes the translator at least once and at most three times. An
  invocation that raises is never accepted and is followed by the next attempt; when none
  of the three attempts is accepted, the gate has made exactly three invocations and
  returns \<open>None\<close>, and the text its callers emit is then the source text. The gate is a
  total function into results: no outcome of the translator is an error of the gate. The
  text the callers emit is not empty when the source text is not.
\<close>

theorem translation_gate_bounded_retry:
  "(\<exists>c. 1 \<le> c \<and> c \<le> 3 \<and>
      translate_text (counting tr) t (s, n) =
        (fst (translate_text tr t s), (snd (translate_text tr t s), n + c))) \<and>
   \<not> accepted (Inl e) \<and>
   ((\<forall>i<3. \<not> accepted (attempt_outcome tr (processed_text t) s i)) \<longrightarrow>
      translate_text tr t s = (None, state_after tr (processed_text t) s 3) \<and>
      final_text (fst (translate_text tr t s)) t = t) \<and>
   (t \<noteq> [] \<longrightarrow> final_text (fst (translate_text tr t s)) t \<noteq> [])"
proof -
  from counting_loop [of 3 0 tr t s n]
  obtain c where c: "c \<le> 3 - 0 \<and> ((0::nat) < 3 \<longrightarrow> 1 \<le> c) \<and>
     translate_loop (counting tr) t 3 0 (s, n) =
       (fst (translate_loop tr t 3 0 s), (snd (translate_loop tr t 3 0 s), n + c))" ..
  have c1: "1 \<le> c" and c3: "c \<le> 3" using c by simp_all
  have ceq: "translate_text (counting tr) t (s, n) =
        (fst (translate_text tr t s), (snd (translate_text tr t s), n + c))"
    using c unfolding translate_text_def by (elim conjE)
  have calls: "\<exists>c. 1 \<le> c \<and> c \<le> 3 \<and>
      translate_text (counting tr) t (s, n) =
        (fst (translate_text tr t s), (snd (translate_text tr t s), n + c))"
    by (intro exI [of _ c] conjI c1 c3 ceq)
  have raise: "\<not> accepted (Inl e)"
    by (simp add: accepted_def)
  have exhausted: "(\<forall>i<3. \<not> accepted (attempt_outcome tr (processed_text t) s i)) \<longrightarrow>
      translate_text tr t s = (None, state_after tr (processed_text t) s 3) \<and>
      final_text (fst (translate_text tr t s)) t = t"
  proof
    assume h: "\<forall>i<3. \<not> accepted (attempt_outcome tr (processed_text t) s i)"
    have r: "translate_text tr t s = (None, state_after tr (processed_text t) s 3)"
      by (rule gate_exhausted [OF h])
    have "final_text (fst (translate_text tr t s)) t = t"
      unfolding r by (simp add: final_text_def)
    with r show "translate_text tr t s = (None, state_after tr (processed_text t) s 3) \<and>
      final_text (fst (translate_text tr t s)) t = t" ..
  qed
  have nonempty: "t \<noteq> [] \<longrightarrow> final_text (fst (translate_text tr t s)) t \<noteq> []"
    by (simp add: final_text_nonempty)
  show ?thesis
    by (intro conjI calls raise exhausted nonempty)
qed

theorem translation_gate_bounded_retry_witness:
  "translate_text tr_raises (ustr ''hello'') 0 = (None, 3) \<and>
   final_text (fst (translate_text tr_raises (ustr ''hello'') 0)) (ustr ''hello'') = ustr ''hello'' \<and>
   ustr ''hello'' \<noteq> [] \<and>
   (\<exists>c. 1 \<le> c \<and> c \<le> 3 \<and>
      translate_text (counting tr_third) (ustr ''hello'') (0, 0) = (Some [20013, 25991], (3, c)))"
proof -
  note t = translation_gate_bounded_retry [of tr_raises "ustr ''hello''" 0 0 "Exception ''x''"]
  have st: "state_after tr_raises (processed_text (ustr ''hello'')) 0 3 = 3"
    by (simp add: tr_raises_def numeral_3_eq_3)
  have a: "translate_text tr_raises (ustr ''hello'') 0 = (None, 3) \<and>
      final_text (fst (translate_text tr_raises (ustr ''hello'') 0)) (ustr ''hello'') = ustr ''hello''"
    using t [THEN conjunct2, THEN conjunct2, THEN conjunct1] raises_never_accepted
    by (simp add: st final_text_def)
  have b: "ustr ''hello'' \<noteq> []" by (simp add: ustr_def)
  have c: "\<exists>c. 1 \<le> c \<and> c \<le> 3 \<and>
      translate_text (counting tr_third) (ustr ''hello'') (0, 0) = (Some [20013, 25991], (3, c))"
    using translation_gate_bounded_retry
      [of tr_third "ustr ''hello''" 0 0 "Exception ''x''", THEN conjunct1]
    by (simp add: third_result)
  show ?thesis
    by (intro conjI a [THEN conjunct1] a [THEN conjunct2] b c)
qed

section \<open>Properties of the List Heuristic\<close>

lemma decimal_runs_coarse:
  "list_all (\<lambda>d. d = 48 \<or> (1632 \<le> d \<and> d \<le> 4240) \<or> (6112 \<le> d \<and> d \<le> 7248) \<or> 42528 \<le> d)
     decimal_runs"
  unfolding decimal_runs_def by simp

lemma decimal_coarse:
  assumes "py_isdecimal c"
  shows "(48 \<le> c \<and> c \<le> 57) \<or> (1632 \<le> c \<and> c \<le> 4249) \<or> (6112 \<le> c \<and> c \<le> 7257) \<or> 42528 \<le> c"
proof (cases "120782 \<le> c \<and> c < 120832")
  case True
  then show ?thesis by simp
next
  case False
  with assms obtain d where d: "d \<in> set decimal_runs" and c: "d \<le> c" "c < d + 10"
    unfolding py_isdecimal_def list_ex_iff by blast
  from d decimal_runs_coarse
  have "d = 48 \<or> (1632 \<le> d \<and> d \<le> 4240) \<or> (6112 \<le> d \<and> d \<le> 7248) \<or> 42528 \<le> d"
    unfolding list_all_iff by blast
  with c show ?thesis by linarith
qed

lemma decimal_not_space: "py_isdecimal c \<Longrightarrow> \<not> py_isspace c"
  using decimal_coarse [of c] unfolding py_isspace_def by linarith

lemma closer_not_decimal: "is_closer c \<Longrightarrow> \<not> py_isdecimal c"
  using decimal_coarse [of c] unfolding is_closer_def by linarith

lemma closer_not_space: "is_closer c \<Longrightarrow> \<not> py_isspace c"
  unfolding is_closer_def py_isspace_def by linarith

lemma bullet_not_space: "is_bullet c \<Longrightarrow> \<not> py_isspace c"
  unfolding is_bullet_def py_isspace_def by linarith

lemma bullet_not_decimal: "is_bullet c \<Longrightarrow> \<not> py_isdecimal c"
  using decimal_coarse [of c] unfolding is_bullet_def by linarith

lemma takeWhile_run:
  assumes "list_all P ws" and "ys = [] \<or> \<not> P (hd ys)"
  shows "takeWhile P (ws @ ys) = ws" and "dropWhile P (ws @ ys) = ys"
proof -
  have all: "\<forall>x \<in> set ws. P x" using assms(1) by (simp add: list_all_iff)
  have t: "takeWhile P ys = []" using assms(2) by (cases ys) auto
  have d: "dropWhile P ys = ys" using assms(2) by (cases ys) auto
  show "takeWhile P (ws @ ys) = ws" using all t by (simp add: takeWhile_append2)
  show "dropWhile P (ws @ ys) = ys" using all d by (simp add: dropWhile_append2)
qed

lemma drop_takeWhile: "drop (length (takeWhile P xs)) xs = dropWhile P xs"
  by (simp add: dropWhile_eq_drop)

lemma takeWhile_all: "list_all P (takeWhile P xs)"
  by (induction xs) auto

lemma match_number_pattern:
  assumes "match_number t = Some n"
  shows "\<exists>ws ds c ws' rest. t = ws @ ds @ [c] @ ws' @ rest \<and>
        list_all py_isspace ws \<and> ds \<noteq> [] \<and> list_all py_isdecimal ds \<and> is_closer c \<and>
        ws' \<noteq> [] \<and> list_all py_isspace ws' \<and> (rest = [] \<or> \<not> py_isspace (hd rest)) \<and>
        n = length (ws @ ds @ [c] @ ws') \<and> drop n t = rest"
proof -
  let ?ws = "takeWhile py_isspace t"
  let ?r1 = "dropWhile py_isspace t"
  let ?ds = "takeWhile py_isdecimal ?r1"
  let ?r2 = "dropWhile py_isdecimal ?r1"
  have m: "match_number t =
     (if length ?ds = 0 then None
      else (case ?r2 of [] \<Rightarrow> None
            | c # r3 \<Rightarrow> if is_closer c
                then (let n3 = length (takeWhile py_isspace r3)
                      in if n3 = 0 then None else Some (length ?ws + length ?ds + 1 + n3))
                else None))"
    unfolding match_number_def Let_def drop_takeWhile ..
  from assms m have ds: "?ds \<noteq> []" by (auto split: if_splits)
  from assms m ds obtain c r3 where r2: "?r2 = c # r3" by (cases ?r2) auto
  from assms m ds r2 have c: "is_closer c" by (auto split: if_splits)
  let ?ws' = "takeWhile py_isspace r3"
  let ?rest = "dropWhile py_isspace r3"
  from assms m ds r2 c have ws': "?ws' \<noteq> []" and n: "n = length ?ws + length ?ds + 1 + length ?ws'"
    by (auto simp: Let_def split: if_splits)
  have rest: "?rest = [] \<or> \<not> py_isspace (hd ?rest)"
    using hd_dropWhile [of py_isspace r3] by blast
  have "t = ?ws @ ?r1" by simp
  also have "?r1 = ?ds @ ?r2" by simp
  also have "?r2 = [c] @ ?ws' @ ?rest" by (simp add: r2)
  finally have whole: "t = ?ws @ ?ds @ [c] @ ?ws' @ ?rest" .
  have dr: "drop n t = ?rest"
    by (subst whole) (simp add: n drop_takeWhile)
  show ?thesis
    apply (rule exI [of _ ?ws], rule exI [of _ ?ds], rule exI [of _ c],
        rule exI [of _ ?ws'], rule exI [of _ ?rest])
    apply (intro conjI whole ds c ws' rest dr takeWhile_all)
    apply (simp add: n)
    done
qed

lemma pattern_match_number:
  assumes "number_pattern t"
  shows "match_number t \<noteq> None"
proof -
  from assms obtain ws ds c ws' rest where t: "t = ws @ ds @ [c] @ ws' @ rest"
    and ws: "list_all py_isspace ws" and ds: "ds \<noteq> []" "list_all py_isdecimal ds"
    and c: "is_closer c" and ws': "ws' \<noteq> []" "list_all py_isspace ws'"
    unfolding number_pattern_def by blast
  have hd_ds: "\<not> py_isspace (hd (ds @ [c] @ ws' @ rest))"
    using ds by (cases ds) (auto simp: decimal_not_space)
  have 1: "takeWhile py_isspace t = ws" "dropWhile py_isspace t = ds @ [c] @ ws' @ rest"
    using takeWhile_run [OF ws, of "ds @ [c] @ ws' @ rest"] hd_ds ds unfolding t by auto
  have 2: "takeWhile py_isdecimal (ds @ [c] @ ws' @ rest) = ds"
     "dropWhile py_isdecimal (ds @ [c] @ ws' @ rest) = c # ws' @ rest"
    using takeWhile_run [OF ds(2), of "[c] @ ws' @ rest"] c by (auto simp: closer_not_decimal)
  have 3: "takeWhile py_isspace (ws' @ rest) \<noteq> []"
    using ws' by (cases ws') auto
  show ?thesis
    unfolding match_number_def Let_def drop_takeWhile
    unfolding 1 2
    using ds c 3 by simp
qed

lemma match_bullet_pattern:
  assumes "match_bullet t = Some n"
  shows "\<exists>ws c ws' rest. t = ws @ [c] @ ws' @ rest \<and>
        list_all py_isspace ws \<and> is_bullet c \<and>
        ws' \<noteq> [] \<and> list_all py_isspace ws' \<and> (rest = [] \<or> \<not> py_isspace (hd rest)) \<and>
        n = length (ws @ [c] @ ws') \<and> drop n t = rest"
proof -
  let ?ws = "takeWhile py_isspace t"
  let ?r1 = "dropWhile py_isspace t"
  have m: "match_bullet t =
     (case ?r1 of [] \<Rightarrow> None
      | c # r2 \<Rightarrow> if is_bullet c
          then (let n2 = length (takeWhile py_isspace r2)
                in if n2 = 0 then None else Some (length ?ws + 1 + n2))
          else None)"
    unfolding match_bullet_def Let_def drop_takeWhile ..
  from assms m obtain c r2 where r1: "?r1 = c # r2" by (cases ?r1) auto
  from assms m r1 have c: "is_bullet c" by (auto split: if_splits)
  let ?ws' = "takeWhile py_isspace r2"
  let ?rest = "dropWhile py_isspace r2"
  from assms m r1 c have ws': "?ws' \<noteq> []" and n: "n = length ?ws + 1 + length ?ws'"
    by (auto simp: Let_def split: if_splits)
  have rest: "?rest = [] \<or> \<not> py_isspace (hd ?rest)"
    using hd_dropWhile [of py_isspace r2] by blast
  have "t = ?ws @ ?r1" by simp
  also have "?r1 = [c] @ ?ws' @ ?rest" by (simp add: r1)
  finally have whole: "t = ?ws @ [c] @ ?ws' @ ?rest" .
  have dr: "drop n t = ?rest"
    by (subst whole) (simp add: n drop_takeWhile)
  show ?thesis
    apply (rule exI [of _ ?ws], rule exI [of _ c], rule exI [of _ ?ws'], rule exI [of _ ?rest])
    apply (intro conjI whole c ws' rest dr takeWhile_all)
    apply (simp add: n)
    done
qed

lemma pattern_match_bullet:
  assumes "bullet_pattern t"
  shows "match_bullet t \<noteq> None"
proof -
  from assms obtain ws c ws' rest where t: "t = ws @ [c] @ ws' @ rest"
    and ws: "list_all py_isspace ws"
    and c: "is_bullet c" and ws': "ws' \<noteq> []" "list_all py_isspace ws'"
    unfolding bullet_pattern_def by blast
  have 1: "takeWhile py_isspace t = ws" "dropWhile py_isspace t = c # ws' @ rest"
    using takeWhile_run [OF ws, of "[c] @ ws' @ rest"] c unfolding t by (auto simp: bullet_not_space)
  have 3: "takeWhile py_isspace (ws' @ rest) \<noteq> []"
    using ws' by (cases ws') auto
  show ?thesis
    unfolding match_bullet_def Let_def drop_takeWhile
    unfolding 1
    using c 3 by simp
qed

lemma match_number_iff: "match_number t \<noteq> None \<longleftrightarrow> number_pattern t"
proof
  assume "match_number t \<noteq> None"
  then obtain n where "match_number t = Some n" by auto
  from match_number_pattern [OF this] show "number_pattern t"
    unfolding number_pattern_def by blast
qed (rule pattern_match_number)

lemma match_bullet_iff: "match_bullet t \<noteq> None \<longleftrightarrow> bullet_pattern t"
proof
  assume "match_bullet t \<noteq> None"
  then obtain n where "match_bullet t = Some n" by auto
  from match_bullet_pattern [OF this] show "bullet_pattern t"
    unfolding bullet_pattern_def by blast
qed (rule pattern_match_bullet)

lemma not_both_patterns: "\<not> (number_pattern t \<and> bullet_pattern t)"
proof
  assume "number_pattern t \<and> bullet_pattern t"
  then obtain ws ds c ws' rest vs b vs' rest'
    where t: "t = ws @ ds @ [c] @ ws' @ rest" and ws: "list_all py_isspace ws"
      and ds: "ds \<noteq> []" "list_all py_isdecimal ds"
      and t': "t = vs @ [b] @ vs' @ rest'" and vs: "list_all py_isspace vs" and b: "is_bullet b"
    unfolding number_pattern_def bullet_pattern_def by blast
  have hd_ds: "\<not> py_isspace (hd (ds @ [c] @ ws' @ rest))" "py_isdecimal (hd (ds @ [c] @ ws' @ rest))"
    using ds by (cases ds; auto simp: decimal_not_space)+
  have "dropWhile py_isspace t = ds @ [c] @ ws' @ rest"
    using takeWhile_run(2) [OF ws, of "ds @ [c] @ ws' @ rest"] hd_ds unfolding t by auto
  moreover have "dropWhile py_isspace t = [b] @ vs' @ rest'"
    using takeWhile_run(2) [OF vs, of "[b] @ vs' @ rest'"] b unfolding t' by (auto simp: bullet_not_space)
  ultimately have "ds @ [c] @ ws' @ rest = [b] @ vs' @ rest'" by metis
  then have "hd (ds @ [c] @ ws' @ rest) = hd ([b] @ vs' @ rest')" by (rule arg_cong)
  then have "hd (ds @ [c] @ ws' @ rest) = b" by simp
  with hd_ds(2) b show False by (simp add: bullet_not_decimal)
qed

section \<open>Properties of the Page Structurer\<close>

lemma process_blocks_fst:
  "map fst (fst (process_blocks key tr ex m bs st)) = bs"
proof (induction bs arbitrary: st)
  case Nil
  show ?case by simp
next
  case (Cons b bs)
  obtain items st1 where 1: "process_block key tr ex m b st = (items, st1)"
    by (cases "process_block key tr ex m b st")
  obtain rest st2 where 2: "process_blocks key tr ex m bs st1 = (rest, st2)"
    by (cases "process_blocks key tr ex m bs st1")
  have "map fst rest = bs" using Cons.IH [of st1] 2 by simp
  then show ?case by (simp add: 1 2)
qed

lemma page_groups_blocks:
  "map fst (fst (page_groups key tr ex pg st)) = sorted_blocks pg"
  by (simp add: page_groups_def process_blocks_fst)

lemma process_page_items:
  "fst (process_page key tr ex n pg st) =
     [Heading (n + 1)] @ concat (map snd (fst (page_groups key tr ex pg st))) @
     fst (fallback_images key ex (page_images pg) (snd (snd (page_groups key tr ex pg st)))) @
     [PageBreak]"
  by (simp add: process_page_def split: prod.split)

lemma process_blocks_snd:
  "snd (process_blocks key tr ex m bs st) =
     fold (\<lambda>b s. snd (process_block key tr ex m b s)) bs st"
proof (induction bs arbitrary: st)
  case Nil
  show ?case by simp
next
  case (Cons b bs)
  obtain items st1 where 1: "process_block key tr ex m b st = (items, st1)"
    by (cases "process_block key tr ex m b st")
  obtain rest st2 where 2: "process_blocks key tr ex m bs st1 = (rest, st2)"
    by (cases "process_blocks key tr ex m bs st1")
  have "st2 = fold (\<lambda>b s. snd (process_block key tr ex m b s)) bs st1"
    using Cons.IH [of st1] 2 by simp
  then show ?case by (simp add: 1 2)
qed

lemma process_blocks_length:
  "length (fst (process_blocks key tr ex m bs st)) = length bs"
  using process_blocks_fst [of key tr ex m bs st, THEN arg_cong, of length] by simp

lemma process_blocks_nth:
  "i < length bs \<Longrightarrow>
   fst (process_blocks key tr ex m bs st) ! i =
     (bs ! i,
      fst (process_block key tr ex m (bs ! i)
             (fold (\<lambda>b s. snd (process_block key tr ex m b s)) (take i bs) st)))"
proof (induction bs arbitrary: i st)
  case Nil
  then show ?case by simp
next
  case (Cons b bs)
  obtain items st1 where 1: "process_block key tr ex m b st = (items, st1)"
    by (cases "process_block key tr ex m b st")
  obtain rest st2 where 2: "process_blocks key tr ex m bs st1 = (rest, st2)"
    by (cases "process_blocks key tr ex m bs st1")
  show ?case
  proof (cases i)
    case 0
    then show ?thesis by (simp add: 1 2)
  next
    case (Suc j)
    then have j: "j < length bs" using Cons.prems by simp
    have "rest ! j =
        (bs ! j,
         fst (process_block key tr ex m (bs ! j)
                (fold (\<lambda>b s. snd (process_block key tr ex m b s)) (take j bs) st1)))"
      using Cons.IH [OF j, of st1] 2 by simp
    then show ?thesis by (simp add: Suc 1 2)
  qed
qed

lemma page_groups_nth:
  "i < length (page_blocks pg) \<Longrightarrow>
   fst (page_groups key tr ex pg st) ! i =
     (sorted_blocks pg ! i,
      fst (process_block key tr ex (page_left_margin (sorted_blocks pg)) (sorted_blocks pg ! i)
             (fold (\<lambda>b s. snd (process_block key tr ex (page_left_margin (sorted_blocks pg)) b s))
                (take i (sorted_blocks pg)) st)))"
  unfolding page_groups_def
  by (rule process_blocks_nth) (simp add: sorted_blocks_def)

lemma page_groups_length:
  "length (fst (page_groups key tr ex pg st)) = length (page_blocks pg)"
  by (simp add: page_groups_def process_blocks_length sorted_blocks_def)

lemma page_groups_state:
  "snd (page_groups key tr ex pg st) =
     fold (\<lambda>b s. snd (process_block key tr ex (page_left_margin (sorted_blocks pg)) b s))
       (sorted_blocks pg) st"
  by (simp add: page_groups_def process_blocks_snd)

lemma page_groups_items:
  "concat (map snd (fst (page_groups key tr ex pg st))) =
     concat (map (\<lambda>i. fst (process_block key tr ex (page_left_margin (sorted_blocks pg))
                            (sorted_blocks pg ! i)
                            (fold (\<lambda>b s. snd (process_block key tr ex
                                     (page_left_margin (sorted_blocks pg)) b s))
                               (take i (sorted_blocks pg)) st)))
                 [0..<length (page_blocks pg)])"
proof -
  have "map snd (fst (page_groups key tr ex pg st)) =
      map (\<lambda>i. fst (process_block key tr ex (page_left_margin (sorted_blocks pg))
                            (sorted_blocks pg ! i)
                            (fold (\<lambda>b s. snd (process_block key tr ex
                                     (page_left_margin (sorted_blocks pg)) b s))
                               (take i (sorted_blocks pg)) st)))
                 [0..<length (page_blocks pg)]"
  proof (rule nth_equalityI)
    show "length (map snd (fst (page_groups key tr ex pg st))) =
        length (map (\<lambda>i. fst (process_block key tr ex (page_left_margin (sorted_blocks pg))
                            (sorted_blocks pg ! i)
                            (fold (\<lambda>b s. snd (process_block key tr ex
                                     (page_left_margin (sorted_blocks pg)) b s))
                               (take i (sorted_blocks pg)) st)))
                 [0..<length (page_blocks pg)])"
      by (simp add: page_groups_length)
  next
    fix i
    assume "i < length (map snd (fst (page_groups key tr ex pg st)))"
    then have i: "i < length (page_blocks pg)" by (simp add: page_groups_length)
    then show "map snd (fst (page_groups key tr ex pg st)) ! i =
        map (\<lambda>i. fst (process_block key tr ex (page_left_margin (sorted_blocks pg))
                            (sorted_blocks pg ! i)
                            (fold (\<lambda>b s. snd (process_block key tr ex
                                     (page_left_margin (sorted_blocks pg)) b s))
                               (take i (sorted_blocks pg)) st)))
                 [0..<length (page_blocks pg)] ! i"
      by (simp add: page_groups_length page_groups_nth)
  qed
  then show ?thesis by simp
qed

lemma process_page_direct:
  "fst (process_page key tr ex n pg st) =
     [Heading (n + 1)] @
     concat (map (\<lambda>i. fst (process_block key tr ex (page_left_margin (sorted_blocks pg))
                            (sorted_blocks pg ! i)
                            (fold (\<lambda>b s. snd (process_block key tr ex
                                     (page_left_margin (sorted_blocks pg)) b s))
                               (take i (sorted_blocks pg)) st)))
                 [0..<length (page_blocks pg)]) @
     fst (fallback_images key ex (page_images pg)
            (snd (fold (\<lambda>b s. snd (process_block key tr ex (page_left_margin (sorted_blocks pg)) b s))
                    (sorted_blocks pg) st))) @
     [PageBreak]"
  unfolding process_page_items page_groups_items page_groups_state ..

lemma fold_min_Min: "fold min xs (x::real) = Min (set (x # xs))"
  by (rule Min.set_eq_fold [symmetric])

lemma page_left_margin_Min:
  "page_left_margin blocks = (if all_x blocks = [] then 0 else Min (set (all_x blocks)))"
proof (cases "all_x blocks")
  case Nil
  then show ?thesis by (simp add: page_left_margin_def)
next
  case (Cons x xs)
  then show ?thesis
    by (simp add: page_left_margin_def Min.set_eq_fold [symmetric])
qed

lemma set_all_x:
  "set (all_x blocks) =
     {left_x (hd (line_spans l)) | b l.
        b \<in> set blocks \<and> block_type b = Some 0 \<and> l \<in> set (block_lines b) \<and> line_spans l \<noteq> []}"
  by (auto simp: all_x_def)

lemma set_all_x_sorted: "set (all_x (sort_key top_y blocks)) = set (all_x blocks)"
  by (simp add: set_all_x)

lemma py_strip_blank: "py_strip t = [] \<longleftrightarrow> blank t"
proof -
  have "py_strip t = [] \<longleftrightarrow> dropWhile py_isspace (rev (dropWhile py_isspace t)) = []"
    by (simp add: py_strip_def)
  also have "\<dots> \<longleftrightarrow> (\<forall>x \<in> set (dropWhile py_isspace t). py_isspace x)"
    by (simp add: dropWhile_eq_Nil_conv)
  also have "\<dots> \<longleftrightarrow> dropWhile py_isspace t = []"
  proof
    assume a: "\<forall>x \<in> set (dropWhile py_isspace t). py_isspace x"
    show "dropWhile py_isspace t = []"
    proof (rule ccontr)
      assume ne: "dropWhile py_isspace t \<noteq> []"
      then have "\<not> py_isspace (hd (dropWhile py_isspace t))" by (rule hd_dropWhile)
      moreover have "hd (dropWhile py_isspace t) \<in> set (dropWhile py_isspace t)" using ne by simp
      ultimately show False using a by blast
    qed
  next
    assume e: "dropWhile py_isspace t = []"
    show "\<forall>x \<in> set (dropWhile py_isspace t). py_isspace x" unfolding e by simp
  qed
  also have "\<dots> \<longleftrightarrow> blank t"
    by (simp add: dropWhile_eq_Nil_conv blank_def list_all_iff)
  finally show ?thesis .
qed

lemma concat_map_if:
  "concat (map (\<lambda>x. if P x then [f x] else []) xs) = map f (filter P xs)"
  by (induction xs) auto

lemma join_spans_no_spans: "join_spans [] 3 = []"
  by (simp add: join_spans_def)

lemma lines_info_kept:
  "lines_info_of m b =
     map (\<lambda>l. (join_spans (line_spans l) 3, left_x (hd (line_spans l)))) (kept_lines b)"
proof -
  have one: "(let spans = line_spans l; line_text = join_spans spans 3
        in if py_strip line_text \<noteq> []
           then [(line_text, if spans \<noteq> [] then left_x (hd spans) else m)] else []) =
      (if \<not> blank (join_spans (line_spans l) 3)
       then [(join_spans (line_spans l) 3, left_x (hd (line_spans l)))] else [])" for l :: line
  proof (cases "line_spans l = []")
    case True
    then show ?thesis by (simp add: join_spans_no_spans py_strip_def blank_def)
  next
    case False
    then show ?thesis by (simp add: py_strip_blank Let_def)
  qed
  have "lines_info_of m b =
      concat (map (\<lambda>l. if \<not> blank (join_spans (line_spans l) 3)
       then [(join_spans (line_spans l) 3, left_x (hd (line_spans l)))] else []) (block_lines b))"
    unfolding lines_info_of_def one ..
  also have "\<dots> = map (\<lambda>l. (join_spans (line_spans l) 3, left_x (hd (line_spans l))))
      (filter (\<lambda>l. \<not> blank (join_spans (line_spans l) 3)) (block_lines b))"
    by (rule concat_map_if)
  finally show ?thesis by (simp add: kept_lines_def)
qed

lemma paragraph_route_text:
  assumes "block_route m b = ParagraphRoute"
  shows "kept_lines b \<noteq> []"
    and "text_block tr m b s =
      ([Paragraph
          (final_text
             (fst (translate_text tr
                (py_join [10] (map (\<lambda>l. join_spans (line_spans l) 3) (kept_lines b))) s))
             (py_join [10] (map (\<lambda>l. join_spans (line_spans l) 3) (kept_lines b))))
          None (left_x (hd (line_spans (hd (kept_lines b)))) - m)],
       snd (translate_text tr
          (py_join [10] (map (\<lambda>l. join_spans (line_spans l) 3) (kept_lines b))) s))"
proof -
  have ne: "lines_info_of m b \<noteq> []"
    using assms by (auto simp: block_route_def Let_def split: if_splits)
  then show k: "kept_lines b \<noteq> []" by (simp add: lines_info_kept)
  have fsts: "map fst (lines_info_of m b) = map (\<lambda>l. join_spans (line_spans l) 3) (kept_lines b)"
    by (simp add: lines_info_kept comp_def)
  have first: "snd (hd (lines_info_of m b)) = left_x (hd (line_spans (hd (kept_lines b))))"
    using k by (simp add: lines_info_kept hd_map)
  show "text_block tr m b s =
      ([Paragraph
          (final_text
             (fst (translate_text tr
                (py_join [10] (map (\<lambda>l. join_spans (line_spans l) 3) (kept_lines b))) s))
             (py_join [10] (map (\<lambda>l. join_spans (line_spans l) 3) (kept_lines b))))
          None (left_x (hd (line_spans (hd (kept_lines b)))) - m)],
       snd (translate_text tr
          (py_join [10] (map (\<lambda>l. join_spans (line_spans l) 3) (kept_lines b))) s))"
    unfolding text_block_def assms route.case paragraph_path_def Let_def fsts first
    by (simp add: case_prod_beta)
qed

lemma margin_of_page:
  "page_left_margin (sorted_blocks pg) =
     (if all_x (page_blocks pg) = [] then 0 else Min (set (all_x (page_blocks pg))))"
proof -
  have "set (all_x (sorted_blocks pg)) = set (all_x (page_blocks pg))"
    by (simp add: sorted_blocks_def set_all_x_sorted)
  moreover from this have "all_x (sorted_blocks pg) = [] \<longleftrightarrow> all_x (page_blocks pg) = []"
    by (metis set_empty)
  ultimately show ?thesis by (simp add: page_left_margin_Min)
qed

text \<open>
  Claim C8, as the code has it. The left margin of a page is the least left edge of the
  first span (in the extractor's order) over the lines with spans of the page's text
  blocks, and 0 when there is none. For a block that takes the paragraph route, the text
  handed to the Translation Gate is the texts of its non-blank reconstructed lines joined
  by a line break; the one Paragraph emitted carries the gate's accepted translation when
  it differs from that text, and that text otherwise, with no list style; its indent is
  the left edge of the first span of the first non-blank line minus the page's left
  margin.
\<close>

theorem page_margin_and_paragraph:
  "page_left_margin (sorted_blocks pg) =
     (if all_x (page_blocks pg) = [] then 0 else Min (set (all_x (page_blocks pg)))) \<and>
   set (all_x (page_blocks pg)) =
     {left_x (hd (line_spans l)) | b l.
        b \<in> set (page_blocks pg) \<and> block_type b = Some 0 \<and> l \<in> set (block_lines b) \<and>
        line_spans l \<noteq> []} \<and>
   (block_route (page_left_margin (sorted_blocks pg)) b = ParagraphRoute \<longrightarrow>
      kept_lines b \<noteq> [] \<and>
      text_block tr (page_left_margin (sorted_blocks pg)) b s =
        ([Paragraph
            (final_text
               (fst (translate_text tr
                  (py_join [10] (map (\<lambda>l. join_spans (line_spans l) 3) (kept_lines b))) s))
               (py_join [10] (map (\<lambda>l. join_spans (line_spans l) 3) (kept_lines b))))
            None
            (left_x (hd (line_spans (hd (kept_lines b)))) - page_left_margin (sorted_blocks pg))],
         snd (translate_text tr
            (py_join [10] (map (\<lambda>l. join_spans (line_spans l) 3) (kept_lines b))) s)))"
proof (intro conjI impI)
  show "page_left_margin (sorted_blocks pg) =
     (if all_x (page_blocks pg) = [] then 0 else Min (set (all_x (page_blocks pg))))"
    by (rule margin_of_page)
  show "set (all_x (page_blocks pg)) =
     {left_x (hd (line_spans l)) | b l.
        b \<in> set (page_blocks pg) \<and> block_type b = Some 0 \<and> l \<in> set (block_lines b) \<and>
        line_spans l \<noteq> []}"
    by (rule set_all_x)
next
  assume r: "block_route (page_left_margin (sorted_blocks pg)) b = ParagraphRoute"
  show "kept_lines b \<noteq> []"
    by (rule paragraph_route_text(1) [OF r])
  show "text_block tr (page_left_margin (sorted_blocks pg)) b s =
        ([Paragraph
            (final_text
               (fst (translate_text tr
                  (py_join [10] (map (\<lambda>l. join_spans (line_spans l) 3) (kept_lines b))) s))
               (py_join [10] (map (\<lambda>l. join_spans (line_spans l) 3) (kept_lines b))))
            None
            (left_x (hd (line_spans (hd (kept_lines b)))) - page_left_margin (sorted_blocks pg))],
         snd (translate_text tr
            (py_join [10] (map (\<lambda>l. join_spans (line_spans l) 3) (kept_lines b))) s))"
    by (rule paragraph_route_text(2) [OF r])
qed

lemma ex_para_kept:
  "kept_lines ex_para = [mk_line [mk_span ''Hello'' 5 30], mk_line [mk_span ''there'' 7 30]]"
  by (simp add: kept_lines_def ex_para_def text_block_of_def mk_line_def join_spans_def
      mk_span_def blank_def py_isspace_def ustr_def left_x_def right_x_def)

lemma ex_para_lines:
  "reconstructed_lines ex_para = [ustr ''Hello'', ustr '' '', ustr ''there'']"
  by (simp add: reconstructed_lines_def ex_para_def text_block_of_def mk_line_def join_spans_def
      mk_span_def left_x_def right_x_def)

lemma ex_para_info:
  "lines_info_of m ex_para = [(ustr ''Hello'', 5), (ustr ''there'', 7)]"
  by (simp add: lines_info_kept ex_para_kept mk_line_def join_spans_def mk_span_def
      left_x_def right_x_def)

lemma ex_para_not_table: "\<not> is_table_block ex_para 10"
  using is_table_block_iff [of ex_para]
  by (simp add: ex_para_def text_block_of_def mk_line_def merge_spans_for_table_def
      mk_span_def left_x_def right_x_def)

lemma hello_no_marker: "match_number (ustr ''Hello'') = None" "match_bullet (ustr ''Hello'') = None"
  by (simp_all add: match_number_def match_bullet_def ustr_def py_isspace_def py_isdecimal_def
      decimal_runs_def is_bullet_def Let_def)

lemma ex_para_route: "block_route m ex_para = ParagraphRoute"
  by (simp add: block_route_def ex_para_not_table ex_para_info is_list_def hello_no_marker)

lemma ex_page_margin: "page_left_margin (sorted_blocks ex_page) = 0"
  by (simp add: page_left_margin_def all_x_def sorted_blocks_def ex_page_def ex_para_def ex_table_def
      text_block_of_def top_y_def mk_line_def mk_span_def left_x_def)


lemma raises_result: "translate_text tr_raises t 0 = (None, 3)"
proof -
  have "state_after tr_raises (processed_text t) 0 3 = 3"
    by (simp add: tr_raises_def numeral_3_eq_3)
  then show ?thesis
    using gate_exhausted [OF raises_never_accepted, of t 0] by simp
qed

lemma chinese_result: "translate_text tr_chinese t 0 = (Some [20013, 25991], 1)"
  using translate_loop_accept [of 0 3 tr_chinese 0 t "[20013, 25991, 32]" 1]
  by (simp add: translate_text_def tr_chinese_def strip_chinese ratio_chinese)

lemma ex_para_joined:
  "py_join [10] (map (\<lambda>l. join_spans (line_spans l) 3) (kept_lines ex_para)) =
     ustr ''Hello'' @ [10] @ ustr ''there''"
  by (simp add: ex_para_kept mk_line_def join_spans_def mk_span_def left_x_def right_x_def)

lemma ex_para_first_x: "left_x (hd (line_spans (hd (kept_lines ex_para)))) = 5"
  by (simp add: ex_para_kept mk_line_def mk_span_def left_x_def)

theorem page_margin_and_paragraph_witness:
  "page_left_margin (sorted_blocks ex_page) = 0 \<and>
   block_route 0 ex_para = ParagraphRoute \<and>
   text_block tr_raises 0 ex_para 0 =
     ([Paragraph (ustr ''Hello'' @ [10] @ ustr ''there'') None 5], 3)"
proof -
  note t = page_margin_and_paragraph [of ex_page ex_para tr_raises 0]
  have "text_block tr_raises 0 ex_para 0 =
     ([Paragraph (ustr ''Hello'' @ [10] @ ustr ''there'') None 5], 3)"
    using t [THEN conjunct2, THEN conjunct2] ex_para_route [of 0]
    unfolding ex_page_margin ex_para_joined ex_para_first_x raises_result
    by (simp add: final_text_def)
  then show ?thesis
    by (intro conjI ex_page_margin ex_para_route)
qed

text \<open>
  Claim C8 as stated fails where the gate accepts a translation: the text of the emitted
  Paragraph is then the translation, not the joined lines.
\<close>

theorem paragraph_text_counterexample:
  "block_route 0 ex_para = ParagraphRoute \<and>
   fst (text_block tr_chinese 0 ex_para 0) = [Paragraph [20013, 25991] None 5] \<and>
   [20013, 25991] \<noteq> py_join [10] (reconstructed_lines ex_para) \<and>
   [20013, 25991] \<noteq> py_join [10] (map (\<lambda>l. join_spans (line_spans l) 3) (kept_lines ex_para))"
proof -
  have a: "fst (text_block tr_chinese 0 ex_para 0) = [Paragraph [20013, 25991] None 5]"
    unfolding paragraph_route_text(2) [OF ex_para_route] ex_para_joined ex_para_first_x
      chinese_result
    by (simp add: final_text_def ustr_def)
  have b: "[20013, 25991] \<noteq> py_join [10] (reconstructed_lines ex_para)"
    by (simp add: ex_para_lines ustr_def)
  have c: "[20013, 25991] \<noteq>
      py_join [10] (map (\<lambda>l. join_spans (line_spans l) 3) (kept_lines ex_para))"
    unfolding ex_para_joined by (simp add: ustr_def)
  show ?thesis by (intro conjI ex_para_route a b c)
qed

lemma sorted_blocks_stable:
  "filter (\<lambda>b. top_y b = y) (sorted_blocks pg) = filter (\<lambda>b. top_y b = y) (page_blocks pg)"
  unfolding sorted_blocks_def by (rule sort_key_stable)

text \<open>
  Claim C9. The blocks of a page are processed in the order of the stable sort by their
  top edge: the order is non-decreasing in \<open>y0\<close>, a permutation of the page's blocks, and
  keeps the extractor's order among blocks with the same \<open>y0\<close>. The loop makes one group
  for each block: the \<open>i\<close>-th group holds the \<open>i\<close>-th block of the sorted list and the items
  that processing this very block emits, in the state (translator state and image keys)
  left by processing the blocks before it in the sorted list, one after the other, from
  the state the page starts in; the state after the loop is the state left by the last
  block. The items of the page are the heading, then the items of each block in this
  order, then the images of the fallback pass, which starts from the keys the loop has
  left, and the page break.
\<close>

theorem page_items_in_block_order:
  "map fst (fst (page_groups key tr ex pg st)) = sort_key top_y (page_blocks pg) \<and>
   sorted (map top_y (map fst (fst (page_groups key tr ex pg st)))) \<and>
   mset (map fst (fst (page_groups key tr ex pg st))) = mset (page_blocks pg) \<and>
   (\<forall>y. filter (\<lambda>b. top_y b = y) (map fst (fst (page_groups key tr ex pg st))) =
        filter (\<lambda>b. top_y b = y) (page_blocks pg)) \<and>
   fst (process_page key tr ex n pg st) =
     [Heading (n + 1)] @ concat (map snd (fst (page_groups key tr ex pg st))) @
     fst (fallback_images key ex (page_images pg) (snd (snd (page_groups key tr ex pg st)))) @
     [PageBreak] \<and>
   length (fst (page_groups key tr ex pg st)) = length (page_blocks pg) \<and>
   (\<forall>i<length (page_blocks pg).
      fst (page_groups key tr ex pg st) ! i =
        (sorted_blocks pg ! i,
         fst (process_block key tr ex (page_left_margin (sorted_blocks pg)) (sorted_blocks pg ! i)
                (fold (\<lambda>b s. snd (process_block key tr ex (page_left_margin (sorted_blocks pg)) b s))
                   (take i (sorted_blocks pg)) st)))) \<and>
   snd (page_groups key tr ex pg st) =
     fold (\<lambda>b s. snd (process_block key tr ex (page_left_margin (sorted_blocks pg)) b s))
       (sorted_blocks pg) st \<and>
   concat (map snd (fst (page_groups key tr ex pg st))) =
     concat (map (\<lambda>i. fst (process_block key tr ex (page_left_margin (sorted_blocks pg))
                            (sorted_blocks pg ! i)
                            (fold (\<lambda>b s. snd (process_block key tr ex
                                     (page_left_margin (sorted_blocks pg)) b s))
                               (take i (sorted_blocks pg)) st)))
                 [0..<length (page_blocks pg)]) \<and>
   fst (process_page key tr ex n pg st) =
     [Heading (n + 1)] @
     concat (map (\<lambda>i. fst (process_block key tr ex (page_left_margin (sorted_blocks pg))
                            (sorted_blocks pg ! i)
                            (fold (\<lambda>b s. snd (process_block key tr ex
                                     (page_left_margin (sorted_blocks pg)) b s))
                               (take i (sorted_blocks pg)) st)))
                 [0..<length (page_blocks pg)]) @
     fst (fallback_images key ex (page_images pg)
            (snd (fold (\<lambda>b s. snd (process_block key tr ex (page_left_margin (sorted_blocks pg)) b s))
                    (sorted_blocks pg) st))) @
     [PageBreak]"
proof -
  have g: "map fst (fst (page_groups key tr ex pg st)) = sort_key top_y (page_blocks pg)"
    by (simp add: page_groups_blocks sorted_blocks_def)
  have s: "sorted (map top_y (sort_key top_y (page_blocks pg)))"
    by (rule sorted_sort_key)
  have m: "mset (sort_key top_y (page_blocks pg)) = mset (page_blocks pg)"
    by (rule mset_sort)
  have f: "\<forall>y. filter (\<lambda>b. top_y b = y) (sort_key top_y (page_blocks pg)) =
        filter (\<lambda>b. top_y b = y) (page_blocks pg)"
    by (simp add: sort_key_stable)
  have n: "\<forall>i<length (page_blocks pg).
      fst (page_groups key tr ex pg st) ! i =
        (sorted_blocks pg ! i,
         fst (process_block key tr ex (page_left_margin (sorted_blocks pg)) (sorted_blocks pg ! i)
                (fold (\<lambda>b s. snd (process_block key tr ex (page_left_margin (sorted_blocks pg)) b s))
                   (take i (sorted_blocks pg)) st)))"
    using page_groups_nth [of _ pg key tr ex st] by blast
  show ?thesis
    unfolding g
    by (intro conjI refl s m f process_page_items page_groups_length n page_groups_state
        page_groups_items process_page_direct)
qed

lemma ex_page_sorted: "sorted_blocks ex_page = [ex_table, ex_para]"
  by (simp add: sorted_blocks_def ex_page_def ex_para_def ex_table_def text_block_of_def top_y_def)

lemma once_first: "translate_text tr_once t 0 = (Some [20013, 25991], 1)"
proof -
  have strip: "py_strip [20013, 25991] = [20013, 25991]"
    by (simp add: py_strip_def py_isspace_def)
  show ?thesis
    using translate_loop_accept [of 0 3 tr_once 0 t "[20013, 25991]" 1]
    by (simp add: translate_text_def tr_once_def strip ratio_chinese)
qed

lemma once_state: "state_after tr_once p n i = n + i"
  by (induction i arbitrary: n) (simp_all add: tr_once_def)

lemma once_later:
  assumes "0 < n" shows "translate_text tr_once t n = (None, n + 3)"
proof -
  have "attempt_outcome tr_once p n i = Inl (Exception ''quota'')" for p i
    unfolding attempt_outcome_def once_state using assms by (simp add: tr_once_def)
  then have "\<forall>i<3. \<not> accepted (attempt_outcome tr_once (processed_text t) n i)"
    by (simp add: accepted_def)
  from gate_exhausted [OF this] show ?thesis by (simp add: once_state)
qed

lemma once_table:
  "process_block key tr_once ex m ex_table (0, ks) =
     ([Table 2 2 [[[20013, 25991], ustr ''B''], [ustr ''C'', ustr ''D'']]], (10, ks))"
proof -
  have t: "block_type ex_table = Some 0"
    by (simp add: ex_table_def text_block_of_def)
  have u: "[0..<2] = [0, Suc 0]"
    by (simp add: upt_rec numeral_2_eq_2)
  have r1: "translate_cells tr_once [ustr ''A'', ustr ''B''] [0, Suc 0] 0 =
      ([[20013, 25991], ustr ''B''], 4)"
    by (simp add: once_first once_later final_text_def ustr_def)
  have r2: "translate_cells tr_once [ustr ''C'', ustr ''D''] [0, Suc 0] 4 =
      ([ustr ''C'', ustr ''D''], 10)"
    by (simp add: once_later final_text_def)
  have "table_path tr_once ex_table 0 =
     ([Table 2 2 [[[20013, 25991], ustr ''B''], [ustr ''C'', ustr ''D'']]], 10)"
    by (simp add: table_path_def ex_table_rows u r1 r2 del: translate_cells.simps)
  then have "text_block tr_once m ex_table 0 =
     ([Table 2 2 [[[20013, 25991], ustr ''B''], [ustr ''C'', ustr ''D'']]], 10)"
    by (simp add: text_block_def block_route_def ex_table_is_table)
  then show ?thesis
    by (simp add: process_block_def t)
qed

lemma once_paragraph:
  assumes "0 < n"
  shows "process_block key tr_once ex 0 ex_para (n, ks) =
     ([Paragraph (ustr ''Hello'' @ [10] @ ustr ''there'') None 5], (n + 3, ks))"
proof -
  have t: "block_type ex_para = Some 0"
    by (simp add: ex_para_def text_block_of_def)
  have "text_block tr_once 0 ex_para n =
     ([Paragraph (ustr ''Hello'' @ [10] @ ustr ''there'') None 5], n + 3)"
    unfolding paragraph_route_text(2) [OF ex_para_route] ex_para_joined ex_para_first_x
      once_later [OF assms]
    by (simp add: final_text_def)
  then show ?thesis
    by (simp add: process_block_def t)
qed

text \<open>
  On the example page the extractor lists the paragraph before the table; the table lies
  higher and is processed first, so the one translation that \<open>tr_once\<close> grants goes to
  the first cell of the table and the paragraph keeps its source text.
\<close>

theorem page_items_in_block_order_witness:
  "page_blocks ex_page = [ex_para, ex_table] \<and>
   map top_y (page_blocks ex_page) = [20, 0] \<and>
   fst (page_groups (\<lambda>img. length img) tr_once (\<lambda>x. Inr None) ex_page (0, {})) =
     [(ex_table, [Table 2 2 [[[20013, 25991], ustr ''B''], [ustr ''C'', ustr ''D'']]]),
      (ex_para, [Paragraph (ustr ''Hello'' @ [10] @ ustr ''there'') None 5])] \<and>
   snd (page_groups (\<lambda>img. length img) tr_once (\<lambda>x. Inr None) ex_page (0, {})) = (13, {})"
proof -
  note t = page_items_in_block_order
      [of "\<lambda>img. length img" tr_once "\<lambda>x. Inr None" ex_page "(0, {})" 0]
  let ?g = "fst (page_groups (\<lambda>img. length img) tr_once (\<lambda>x. Inr None) ex_page (0, {}))"
  have c: "page_blocks ex_page = [ex_para, ex_table]"
    by (simp add: ex_page_def)
  have b: "map top_y (page_blocks ex_page) = [20, 0]"
    by (simp add: c ex_para_def ex_table_def text_block_of_def top_y_def)
  note r = t [THEN conjunct2, THEN conjunct2, THEN conjunct2, THEN conjunct2, THEN conjunct2]
  have l: "length ?g = 2"
    using r [THEN conjunct1] by (simp add: c)
  note n = r [THEN conjunct2, THEN conjunct1, rule_format]
  have d: "?g ! 0 = (ex_table, [Table 2 2 [[[20013, 25991], ustr ''B''], [ustr ''C'', ustr ''D'']]])"
    using n [of 0] by (simp add: c ex_page_sorted once_table)
  have e: "?g ! 1 = (ex_para, [Paragraph (ustr ''Hello'' @ [10] @ ustr ''there'') None 5])"
    using n [of 1] unfolding ex_page_margin
    by (simp add: c ex_page_sorted once_table once_paragraph)
  have g: "?g = [?g ! 0, ?g ! 1]"
    using l by (cases ?g; cases "tl ?g") (simp_all add: numeral_2_eq_2)
  have a: "?g = [(ex_table, [Table 2 2 [[[20013, 25991], ustr ''B''], [ustr ''C'', ustr ''D'']]]),
      (ex_para, [Paragraph (ustr ''Hello'' @ [10] @ ustr ''there'') None 5])]"
    using g unfolding d e .
  have s: "snd (page_groups (\<lambda>img. length img) tr_once (\<lambda>x. Inr None) ex_page (0, {})) = (13, {})"
    using r [THEN conjunct2, THEN conjunct2, THEN conjunct1] unfolding ex_page_margin
    by (simp add: ex_page_sorted once_table once_paragraph)
  show ?thesis by (intro conjI c b a s)
qed

section \<open>The list route\<close>

lemma list_marker_number:
  assumes "number_pattern t"
  shows "\<exists>body. numbered_line t body \<and> list_marker t = (Some ListNumber, body)"
proof -
  from assms obtain n where n: "match_number t = Some n"
    using match_number_iff [of t] by auto
  from match_number_pattern [OF n] obtain ws ds c ws' rest
    where d: "t = ws @ ds @ [c] @ ws' @ rest" "list_all py_isspace ws" "ds \<noteq> []"
      "list_all py_isdecimal ds" "is_closer c" "ws' \<noteq> []" "list_all py_isspace ws'"
      "rest = [] \<or> \<not> py_isspace (hd rest)" and dr: "drop n t = rest"
    by blast
  have "numbered_line t (py_strip rest)"
    unfolding numbered_line_def using d by blast
  moreover have "list_marker t = (Some ListNumber, py_strip rest)"
    by (simp add: list_marker_def n dr)
  ultimately show ?thesis by blast
qed

lemma list_marker_bullet:
  assumes "bullet_pattern t"
  shows "\<exists>body. bulleted_line t body \<and> list_marker t = (Some ListBullet, body)"
proof -
  have "\<not> number_pattern t" using assms not_both_patterns [of t] by blast
  then have no: "match_number t = None" using match_number_iff [of t] by blast
  from assms obtain n where n: "match_bullet t = Some n"
    using match_bullet_iff [of t] by auto
  from match_bullet_pattern [OF n] obtain ws c ws' rest
    where d: "t = ws @ [c] @ ws' @ rest" "list_all py_isspace ws"
      "is_bullet c" "ws' \<noteq> []" "list_all py_isspace ws'"
      "rest = [] \<or> \<not> py_isspace (hd rest)" and dr: "drop n t = rest"
    by blast
  have "bulleted_line t (py_strip rest)"
    unfolding bulleted_line_def using d by blast
  moreover have "list_marker t = (Some ListBullet, py_strip rest)"
    by (simp add: list_marker_def no n dr)
  ultimately show ?thesis by blast
qed

lemma is_list_iff:
  "is_list li \<longleftrightarrow> (\<forall>p \<in> set li. number_pattern (fst p) \<or> bullet_pattern (fst p))"
  unfolding is_list_def list_all_iff match_number_iff [symmetric] match_bullet_iff [symmetric]
  by (simp add: case_prod_beta)

lemma route_list_iff:
  assumes "\<not> is_table_block b 10"
  shows "block_route m b = ListRoute \<longleftrightarrow>
     kept_lines b \<noteq> [] \<and>
     (\<forall>l \<in> set (kept_lines b). number_pattern (join_spans (line_spans l) 3) \<or>
        bullet_pattern (join_spans (line_spans l) 3))"
proof -
  have e: "lines_info_of m b = [] \<longleftrightarrow> kept_lines b = []"
    by (simp add: lines_info_kept)
  have l: "is_list (lines_info_of m b) \<longleftrightarrow>
     (\<forall>l \<in> set (kept_lines b). number_pattern (join_spans (line_spans l) 3) \<or>
        bullet_pattern (join_spans (line_spans l) 3))"
    by (simp add: is_list_iff lines_info_kept)
  show ?thesis
    using assms unfolding block_route_def Let_def e l by simp
qed

lemma list_path_length: "length (fst (list_path tr m li s)) = length li"
proof (induction li arbitrary: s)
  case Nil
  show ?case by simp
next
  case (Cons p li)
  obtain t x where p: "p = (t, x)" by (cases p)
  obtain st t' where lm: "list_marker t = (st, t')" by (cases "list_marker t")
  obtain r s1 where tt: "translate_text tr t' s = (r, s1)" by (cases "translate_text tr t' s")
  obtain items s2 where lp: "list_path tr m li s1 = (items, s2)" by (cases "list_path tr m li s1")
  have "length items = length li" using Cons.IH [of s1] lp by simp
  then show ?case by (simp add: p lm tt lp)
qed

lemma list_path_nth:
  "i < length li \<Longrightarrow>
   \<exists>s'. fst (list_path tr m li s) ! i =
     Paragraph (final_text (fst (translate_text tr (snd (list_marker (fst (li ! i)))) s'))
                  (snd (list_marker (fst (li ! i)))))
       (fst (list_marker (fst (li ! i)))) (snd (li ! i) - m)"
proof (induction li arbitrary: s i)
  case Nil
  then show ?case by simp
next
  case (Cons p li)
  obtain t x where p: "p = (t, x)" by (cases p)
  obtain st t' where lm: "list_marker t = (st, t')" by (cases "list_marker t")
  obtain r s1 where tt: "translate_text tr t' s = (r, s1)" by (cases "translate_text tr t' s")
  obtain items s2 where lp: "list_path tr m li s1 = (items, s2)" by (cases "list_path tr m li s1")
  have whole: "fst (list_path tr m (p # li) s) = Paragraph (final_text r t') st (x - m) # items"
    by (simp add: p lm tt lp)
  show ?case
  proof (cases i)
    case 0
    have "fst (list_path tr m (p # li) s) ! 0 =
      Paragraph (final_text (fst (translate_text tr t' s)) t') st (x - m)"
      by (simp add: whole tt)
    then show ?thesis unfolding 0 by (intro exI [of _ s]) (simp add: p lm)
  next
    case (Suc j)
    then have "j < length li" using Cons.prems by simp
    from Cons.IH [OF this, of s1] obtain s' where
      "fst (list_path tr m li s1) ! j =
        Paragraph (final_text (fst (translate_text tr (snd (list_marker (fst (li ! j)))) s'))
                  (snd (list_marker (fst (li ! j)))))
         (fst (list_marker (fst (li ! j)))) (snd (li ! j) - m)" by blast
    then show ?thesis unfolding Suc by (intro exI [of _ s']) (simp add: whole lp)
  qed
qed

lemma list_route_items:
  assumes r: "block_route m b = ListRoute" and i: "i < length (kept_lines b)"
  shows "\<exists>body s'.
     (if number_pattern (join_spans (line_spans (kept_lines b ! i)) 3)
      then numbered_line (join_spans (line_spans (kept_lines b ! i)) 3) body
      else bulleted_line (join_spans (line_spans (kept_lines b ! i)) 3) body) \<and>
     fst (text_block tr m b s) ! i =
       Paragraph (final_text (fst (translate_text tr body s')) body)
         (Some (if number_pattern (join_spans (line_spans (kept_lines b ! i)) 3)
                then ListNumber else ListBullet))
         (left_x (hd (line_spans (kept_lines b ! i))) - m)"
proof -
  let ?l = "kept_lines b ! i"
  let ?t = "join_spans (line_spans ?l) 3"
  have nt: "\<not> is_table_block b 10"
    using r by (auto simp: block_route_def split: if_splits)
  have li: "lines_info_of m b ! i = (?t, left_x (hd (line_spans ?l)))"
    using i by (simp add: lines_info_kept)
  have len: "i < length (lines_info_of m b)"
    using i by (simp add: lines_info_kept)
  from list_path_nth [OF len, of tr m s] obtain s' where
    item: "fst (list_path tr m (lines_info_of m b) s) ! i =
      Paragraph (final_text (fst (translate_text tr (snd (list_marker ?t)) s')) (snd (list_marker ?t)))
        (fst (list_marker ?t)) (left_x (hd (line_spans ?l)) - m)"
    unfolding li fst_conv snd_conv by blast
  have tb: "fst (text_block tr m b s) = fst (list_path tr m (lines_info_of m b) s)"
    by (simp add: text_block_def r)
  have "?l \<in> set (kept_lines b)" using i by simp
  then have pat: "number_pattern ?t \<or> bullet_pattern ?t"
    using route_list_iff [OF nt, of m] r by blast
  show ?thesis
  proof (cases "number_pattern ?t")
    case True
    from list_marker_number [OF True] obtain body
      where "numbered_line ?t body" "list_marker ?t = (Some ListNumber, body)" by blast
    then show ?thesis
      using True item unfolding tb by (intro exI [of _ body] exI [of _ s']) simp
  next
    case False
    with pat have "bullet_pattern ?t" by blast
    from list_marker_bullet [OF this] obtain body
      where "bulleted_line ?t body" "list_marker ?t = (Some ListBullet, body)" by blast
    then show ?thesis
      using False item unfolding tb by (intro exI [of _ body] exI [of _ s']) simp
  qed
qed

text \<open>
  Claim C4, as the code has it. A block that failed the table heuristic takes the list
  route if and only if it has a line that is not blank and every line that is not blank
  (the lines kept in \<open>lines_info\<close>) matches the numbered or the bulleted pattern. On this
  route every kept line gives one item, in order: its style is \<open>List Number\<close> when the
  line matches the numbered pattern and \<open>List Bullet\<close> otherwise; the text handed to the
  Translation Gate is the line after its marker (the match from the start of the line),
  trimmed; the item's text is the gate's accepted translation of it or that text.
\<close>

theorem list_route_spec:
  assumes "\<not> is_table_block b 10"
  shows "(block_route m b = ListRoute \<longleftrightarrow>
            kept_lines b \<noteq> [] \<and>
            (\<forall>l \<in> set (kept_lines b). number_pattern (join_spans (line_spans l) 3) \<or>
               bullet_pattern (join_spans (line_spans l) 3))) \<and>
         (block_route m b = ListRoute \<longrightarrow>
            length (fst (text_block tr m b s)) = length (kept_lines b) \<and>
            (\<forall>i < length (kept_lines b). \<exists>body s'.
               (if number_pattern (join_spans (line_spans (kept_lines b ! i)) 3)
                then numbered_line (join_spans (line_spans (kept_lines b ! i)) 3) body
                else bulleted_line (join_spans (line_spans (kept_lines b ! i)) 3) body) \<and>
               fst (text_block tr m b s) ! i =
                 Paragraph (final_text (fst (translate_text tr body s')) body)
                   (Some (if number_pattern (join_spans (line_spans (kept_lines b ! i)) 3)
                          then ListNumber else ListBullet))
                   (left_x (hd (line_spans (kept_lines b ! i))) - m)))"
proof (intro conjI impI allI)
  show "block_route m b = ListRoute \<longleftrightarrow>
            kept_lines b \<noteq> [] \<and>
            (\<forall>l \<in> set (kept_lines b). number_pattern (join_spans (line_spans l) 3) \<or>
               bullet_pattern (join_spans (line_spans l) 3))"
    by (rule route_list_iff [OF assms])
next
  assume r: "block_route m b = ListRoute"
  show "length (fst (text_block tr m b s)) = length (kept_lines b)"
    by (simp add: text_block_def r list_path_length lines_info_kept)
next
  fix i
  assume "block_route m b = ListRoute" and "i < length (kept_lines b)"
  then show "\<exists>body s'.
               (if number_pattern (join_spans (line_spans (kept_lines b ! i)) 3)
                then numbered_line (join_spans (line_spans (kept_lines b ! i)) 3) body
                else bulleted_line (join_spans (line_spans (kept_lines b ! i)) 3) body) \<and>
               fst (text_block tr m b s) ! i =
                 Paragraph (final_text (fst (translate_text tr body s')) body)
                   (Some (if number_pattern (join_spans (line_spans (kept_lines b ! i)) 3)
                          then ListNumber else ListBullet))
                   (left_x (hd (line_spans (kept_lines b ! i))) - m)"
    by (rule list_route_items)
qed


lemmas marker_simps = match_number_def match_bullet_def ustr_def py_isspace_def py_isdecimal_def
  decimal_runs_def is_closer_def is_bullet_def Let_def

lemma raises_result_any: "translate_text tr_raises t n = (None, n + 3)"
proof -
  have "state_after tr_raises (processed_text t) n 3 = n + 3"
    by (simp add: tr_raises_def numeral_3_eq_3)
  then show ?thesis
    using gate_exhausted [OF raises_never_accepted, of t n] by simp
qed

lemma ex_list_not_table: "\<not> is_table_block ex_list 10"
  using is_table_block_iff [of ex_list]
  by (simp add: ex_list_def text_block_of_def mk_line_def merge_spans_for_table_def
      mk_span_def left_x_def right_x_def)

lemma ex_list_blank_not_table: "\<not> is_table_block ex_list_blank 10"
  using is_table_block_iff [of ex_list_blank]
  by (simp add: ex_list_blank_def text_block_of_def mk_line_def merge_spans_for_table_def
      mk_span_def left_x_def right_x_def)

lemma ex_list_kept:
  "kept_lines ex_list = [mk_line [mk_span ''1. First'' 0 40], mk_line [mk_span ''- Second'' 0 40]]"
  by (simp add: kept_lines_def ex_list_def text_block_of_def mk_line_def join_spans_def
      mk_span_def blank_def py_isspace_def ustr_def left_x_def right_x_def)

lemma ex_list_blank_kept:
  "kept_lines ex_list_blank = [mk_line [mk_span ''1. First'' 0 40]]"
  by (simp add: kept_lines_def ex_list_blank_def text_block_of_def mk_line_def join_spans_def
      mk_span_def blank_def py_isspace_def ustr_def left_x_def right_x_def)

lemma ex_list_blank_lines:
  "reconstructed_lines ex_list_blank = [ustr ''1. First'', ustr '' '']"
  by (simp add: reconstructed_lines_def ex_list_blank_def text_block_of_def mk_line_def
      join_spans_def mk_span_def left_x_def right_x_def)

lemma first_matches: "match_number (ustr ''1. First'') = Some 3"
  by (simp add: marker_simps)

lemma second_matches:
  "match_number (ustr ''- Second'') = None" "match_bullet (ustr ''- Second'') = Some 2"
  by (simp_all add: marker_simps)

lemma space_no_marker: "match_number (ustr '' '') = None" "match_bullet (ustr '' '') = None"
  by (simp_all add: marker_simps)

lemma first_numbered: "number_pattern (ustr ''1. First'')"
  using match_number_iff [of "ustr ''1. First''"] first_matches by simp

lemma second_bulleted: "bullet_pattern (ustr ''- Second'')"
  using match_bullet_iff [of "ustr ''- Second''"] second_matches by simp

lemma space_unmarked: "\<not> number_pattern (ustr '' '')" "\<not> bullet_pattern (ustr '' '')"
  using match_number_iff [of "ustr '' ''"] match_bullet_iff [of "ustr '' ''"] space_no_marker
  by simp_all

lemma ex_line_texts:
  "join_spans (line_spans (mk_line [mk_span ''1. First'' 0 40])) 3 = ustr ''1. First''"
  "join_spans (line_spans (mk_line [mk_span ''- Second'' 0 40])) 3 = ustr ''- Second''"
  by (simp_all add: mk_line_def join_spans_def mk_span_def)

lemma ex_list_blank_route: "block_route m ex_list_blank = ListRoute"
  using route_list_iff [OF ex_list_blank_not_table, of m] first_numbered
  by (simp add: ex_list_blank_kept ex_line_texts)

lemma ex_list_items:
  "fst (list_path tr_raises 0 (lines_info_of 0 ex_list) 0) =
     [Paragraph (ustr ''First'') (Some ListNumber) 0, Paragraph (ustr ''Second'') (Some ListBullet) 0]"
proof -
  have li: "lines_info_of 0 ex_list = [(ustr ''1. First'', 0), (ustr ''- Second'', 0)]"
    by (simp add: lines_info_kept ex_list_kept ex_line_texts) (simp add: mk_line_def mk_span_def left_x_def)
  have m1: "list_marker (ustr ''1. First'') = (Some ListNumber, ustr ''First'')"
    unfolding list_marker_def first_matches by (simp add: ustr_def py_strip_def py_isspace_def)
  have m2: "list_marker (ustr ''- Second'') = (Some ListBullet, ustr ''Second'')"
    unfolding list_marker_def second_matches by (simp add: ustr_def py_strip_def py_isspace_def)
  show ?thesis
    unfolding li by (simp add: m1 m2 raises_result_any final_text_def)
qed

text \<open>
  Claim C4 as stated fails on a block with a line of whitespace: the line is not empty
  and matches neither pattern, yet the block is a list, because lines that are blank are
  dropped before the test.
\<close>

theorem list_blank_line_counterexample:
  "\<not> is_table_block ex_list_blank 10 \<and>
   block_route 0 ex_list_blank = ListRoute \<and>
   reconstructed_lines ex_list_blank = [ustr ''1. First'', ustr '' ''] \<and>
   ustr '' '' \<noteq> [] \<and>
   \<not> number_pattern (ustr '' '') \<and> \<not> bullet_pattern (ustr '' '') \<and>
   \<not> (\<forall>t \<in> set (filter (\<lambda>t. t \<noteq> []) (reconstructed_lines ex_list_blank)).
         number_pattern t \<or> bullet_pattern t)"
proof -
  have ne: "ustr '' '' \<noteq> []" by (simp add: ustr_def)
  have "ustr '' '' \<in> set (filter (\<lambda>t. t \<noteq> []) (reconstructed_lines ex_list_blank))"
    using ne by (simp add: ex_list_blank_lines)
  then have all: "\<not> (\<forall>t \<in> set (filter (\<lambda>t. t \<noteq> []) (reconstructed_lines ex_list_blank)).
         number_pattern t \<or> bullet_pattern t)"
    using space_unmarked by blast
  show ?thesis
    by (intro conjI ex_list_blank_not_table ex_list_blank_route ex_list_blank_lines ne
        space_unmarked all)
qed

theorem list_route_spec_witness:
  "\<not> is_table_block ex_list 10 \<and>
   block_route 0 ex_list = ListRoute \<and>
   length (fst (text_block tr_raises 0 ex_list 0)) = 2 \<and>
   fst (text_block tr_raises 0 ex_list 0) =
     [Paragraph (ustr ''First'') (Some ListNumber) 0, Paragraph (ustr ''Second'') (Some ListBullet) 0]"
proof -
  note t = list_route_spec [OF ex_list_not_table, of 0 tr_raises 0]
  have r: "block_route 0 ex_list = ListRoute"
    using t [THEN conjunct1] first_numbered second_bulleted
    by (simp add: ex_list_kept ex_line_texts)
  have n: "length (fst (text_block tr_raises 0 ex_list 0)) = 2"
    using t [THEN conjunct2] r by (simp add: ex_list_kept)
  have i: "fst (text_block tr_raises 0 ex_list 0) =
     [Paragraph (ustr ''First'') (Some ListNumber) 0, Paragraph (ustr ''Second'') (Some ListBullet) 0]"
    by (simp add: text_block_def r ex_list_items)
  show ?thesis by (intro conjI ex_list_not_table r n i)
qed

section \<open>Properties of the Image Deduplicator\<close>

lemma pictures_append: "pictures (xs @ ys) = pictures xs @ pictures ys"
  by (simp add: pictures_def)

lemma pictures_Picture: "pictures (map Picture imgs) = imgs"
  by (induction imgs) (simp_all add: pictures_def)

lemma pictures_simps:
  "pictures [] = []"
  "pictures (Heading n # items) = pictures items"
  "pictures (Paragraph t st x # items) = pictures items"
  "pictures (Table r c cells # items) = pictures items"
  "pictures (PageBreak # items) = pictures items"
  "pictures (Picture img # items) = img # pictures items"
  by (simp_all add: pictures_def)

lemma list_path_no_pictures: "pictures (fst (list_path tr m li s)) = []"
proof (induction li arbitrary: s)
  case Nil
  show ?case by (simp add: pictures_simps)
next
  case (Cons p li)
  obtain t x where p: "p = (t, x)" by (cases p)
  obtain st t' where lm: "list_marker t = (st, t')" by (cases "list_marker t")
  obtain r s1 where tt: "translate_text tr t' s = (r, s1)" by (cases "translate_text tr t' s")
  obtain items s2 where lp: "list_path tr m li s1 = (items, s2)" by (cases "list_path tr m li s1")
  have "pictures items = []" using Cons.IH [of s1] lp by simp
  then show ?case by (simp add: p lm tt lp pictures_simps)
qed

lemma table_path_no_pictures: "pictures (fst (table_path tr b s)) = []"
proof -
  obtain cells s1 where
    "translate_rows tr (if table_data b \<noteq> [] then length (hd (table_data b)) else 0)
       (table_data b) s = (cells, s1)"
    by (cases "translate_rows tr (if table_data b \<noteq> [] then length (hd (table_data b)) else 0)
       (table_data b) s")
  then show ?thesis
    by (simp add: table_path_def Let_def pictures_simps)
qed

lemma paragraph_path_no_pictures: "pictures (fst (paragraph_path tr m li s)) = []"
  by (simp add: paragraph_path_def Let_def case_prod_beta pictures_simps)

lemma text_block_no_pictures: "pictures (fst (text_block tr m b s)) = []"
  by (cases "block_route m b")
     (simp_all add: text_block_def table_path_no_pictures list_path_no_pictures
        paragraph_path_no_pictures pictures_simps)

lemma resolved_simps:
  "resolved [] = []"
  "resolved (None # rs) = resolved rs"
  "resolved (Some img # rs) = img # resolved rs"
  by (simp_all add: resolved_def)

lemma resolved_Cons: "resolved (r # rs) = resolved [r] @ resolved rs"
  by (simp add: resolved_def)

lemma dedup_append:
  "dedup key seen (xs @ ys) = dedup key seen xs @ dedup key (seen \<union> key ` set xs) ys"
proof (induction xs arbitrary: seen)
  case Nil
  show ?case by simp
next
  case (Cons x xs)
  show ?case
  proof (cases "key x \<in> seen")
    case True
    then have "seen \<union> key ` set (x # xs) = seen \<union> key ` set xs" by auto
    with True show ?thesis by (simp add: Cons.IH)
  next
    case False
    have "insert (key x) seen \<union> key ` set xs = seen \<union> key ` set (x # xs)" by auto
    with False show ?thesis by (simp add: Cons.IH)
  qed
qed

lemma add_image_spec:
  "add_image key r keys =
     (map Picture (dedup key keys (resolved [r])), keys \<union> key ` set (resolved [r]))"
proof (cases r)
  case None
  then show ?thesis by (simp add: add_image_def resolved_simps)
next
  case (Some img)
  then show ?thesis by (auto simp: add_image_def resolved_simps Let_def)
qed

lemma block_payloads_Cons:
  "block_payloads ex (b # bs) = block_payloads ex [b] @ block_payloads ex bs"
  by (simp add: block_payloads_def resolved_def)

lemma block_payloads_one:
  "block_payloads ex [b] = (if block_type b = Some 1 then resolved [block_payload ex b] else [])"
  by (simp add: block_payloads_def resolved_def)

lemma process_block_pictures:
  "pictures (fst (process_block key tr ex m b st)) = dedup key (snd st) (block_payloads ex [b])"
  "snd (snd (process_block key tr ex m b st)) = snd st \<union> key ` set (block_payloads ex [b])"
proof -
  consider (textual) "block_type b = Some 0" | (pictorial) "block_type b = Some 1"
    | (other) "block_type b \<noteq> Some 0" "block_type b \<noteq> Some 1" by blast
  then have "pictures (fst (process_block key tr ex m b st)) = dedup key (snd st) (block_payloads ex [b]) \<and>
    snd (snd (process_block key tr ex m b st)) = snd st \<union> key ` set (block_payloads ex [b])"
  proof cases
    case textual
    then show ?thesis
      by (simp add: process_block_def block_payloads_one case_prod_beta text_block_no_pictures)
  next
    case pictorial
    then show ?thesis
      by (simp add: process_block_def block_payloads_one add_image_spec pictures_Picture)
  next
    case other
    then show ?thesis
      by (simp add: process_block_def block_payloads_one pictures_simps)
  qed
  then show "pictures (fst (process_block key tr ex m b st)) = dedup key (snd st) (block_payloads ex [b])"
    and "snd (snd (process_block key tr ex m b st)) = snd st \<union> key ` set (block_payloads ex [b])"
    by simp_all
qed

lemma process_blocks_pictures:
  "pictures (concat (map snd (fst (process_blocks key tr ex m bs st)))) =
     dedup key (snd st) (block_payloads ex bs) \<and>
   snd (snd (process_blocks key tr ex m bs st)) = snd st \<union> key ` set (block_payloads ex bs)"
proof (induction bs arbitrary: st)
  case Nil
  show ?case by (simp add: block_payloads_def resolved_simps pictures_simps)
next
  case (Cons b bs)
  obtain items st1 where 1: "process_block key tr ex m b st = (items, st1)"
    by (cases "process_block key tr ex m b st")
  obtain rest st2 where 2: "process_blocks key tr ex m bs st1 = (rest, st2)"
    by (cases "process_blocks key tr ex m bs st1")
  have pi: "pictures items = dedup key (snd st) (block_payloads ex [b])"
    and k1: "snd st1 = snd st \<union> key ` set (block_payloads ex [b])"
    using process_block_pictures [of key tr ex m b st] 1 by simp_all
  have pr: "pictures (concat (map snd rest)) = dedup key (snd st1) (block_payloads ex bs)"
    and k2: "snd st2 = snd st1 \<union> key ` set (block_payloads ex bs)"
    using Cons.IH [of st1] 2 by simp_all
  have a: "pictures (concat (map snd (fst (process_blocks key tr ex m (b # bs) st)))) =
      pictures items @ pictures (concat (map snd rest))"
    by (simp add: 1 2 pictures_append)
  have b: "snd (snd (process_blocks key tr ex m (b # bs) st)) = snd st2"
    by (simp add: 1 2)
  show ?case
    unfolding a b pi pr k1 k2 block_payloads_Cons [of ex b bs] dedup_append
    by (simp add: Un_assoc image_Un)
qed

lemma fallback_images_spec:
  "fallback_images key ex xrefs keys =
     (map Picture (dedup key keys (resolved (map (fallback_payload ex) xrefs))),
      keys \<union> key ` set (resolved (map (fallback_payload ex) xrefs)))"
proof (induction xrefs arbitrary: keys)
  case Nil
  show ?case by (simp add: resolved_simps)
next
  case (Cons x xs)
  have r: "resolved (map (fallback_payload ex) (x # xs)) =
      resolved [fallback_payload ex x] @ resolved (map (fallback_payload ex) xs)"
    using resolved_Cons [of "fallback_payload ex x" "map (fallback_payload ex) xs"] by simp
  show ?case
    unfolding r dedup_append
    by (simp add: add_image_spec Cons.IH Un_assoc image_Un)
qed

lemma process_page_pictures:
  "pictures (fst (process_page key tr ex n pg st)) = dedup key (snd st) (page_payloads ex pg) \<and>
   snd (snd (process_page key tr ex n pg st)) = snd st \<union> key ` set (page_payloads ex pg)"
proof -
  obtain groups st1 where g: "page_groups key tr ex pg st = (groups, st1)"
    by (cases "page_groups key tr ex pg st")
  have pg: "pictures (concat (map snd groups)) = dedup key (snd st) (block_payloads ex (sorted_blocks pg))"
    and k1: "snd st1 = snd st \<union> key ` set (block_payloads ex (sorted_blocks pg))"
    using process_blocks_pictures [of key tr ex "page_left_margin (sorted_blocks pg)" "sorted_blocks pg" st] g
    by (simp_all add: page_groups_def)
  have a: "pictures (fst (process_page key tr ex n pg st)) =
      pictures (concat (map snd groups)) @
      dedup key (snd st1) (resolved (map (fallback_payload ex) (page_images pg)))"
    by (simp add: process_page_def g fallback_images_spec pictures_append pictures_simps pictures_Picture)
  have b: "snd (snd (process_page key tr ex n pg st)) =
      snd st1 \<union> key ` set (resolved (map (fallback_payload ex) (page_images pg)))"
    by (simp add: process_page_def g fallback_images_spec)
  show ?thesis
    unfolding a b pg k1 page_payloads_def dedup_append
    by (simp add: Un_assoc image_Un)
qed

lemma process_pages_pictures:
  "pictures (fst (process_pages key tr ex n pgs st)) =
     dedup key (snd st) (concat (map (page_payloads ex) pgs))"
proof (induction pgs arbitrary: n st)
  case Nil
  show ?case by (simp add: pictures_simps)
next
  case (Cons pg pgs)
  obtain items st1 where 1: "process_page key tr ex n pg st = (items, st1)"
    by (cases "process_page key tr ex n pg st")
  obtain rest st2 where 2: "process_pages key tr ex (Suc n) pgs st1 = (rest, st2)"
    by (cases "process_pages key tr ex (Suc n) pgs st1")
  have pi: "pictures items = dedup key (snd st) (page_payloads ex pg)"
    and k1: "snd st1 = snd st \<union> key ` set (page_payloads ex pg)"
    using process_page_pictures [of key tr ex n pg st] 1 by simp_all
  have pr: "pictures rest = dedup key (snd st1) (concat (map (page_payloads ex) pgs))"
    using Cons.IH [of "Suc n" st1] 2 by simp
  show ?case
    by (simp add: 1 2 pictures_append pi pr k1 dedup_append)
qed

lemma translate_pdf_pictures:
  "pictures (fst (translate_pdf key tr doc s)) = dedup key {} (pdf_payloads doc)"
  using process_pages_pictures [of key tr "pdf_extract_image doc" 0 "pdf_pages doc" "(s, {})"]
  by (simp add: translate_pdf_def pdf_payloads_def case_prod_beta)


lemma dedup_index:
  "dedup key seen ps =
     map (\<lambda>i. ps ! i)
       (filter (\<lambda>i. key (ps ! i) \<notin> seen \<and> (\<forall>j<i. key (ps ! j) \<noteq> key (ps ! i))) [0..<length ps])"
proof (induction ps arbitrary: seen)
  case Nil
  show ?case by simp
next
  case (Cons p ps)
  let ?Q = "\<lambda>i. key ((p # ps) ! i) \<notin> seen \<and> (\<forall>j<i. key ((p # ps) ! j) \<noteq> key ((p # ps) ! i))"
  have up: "[0..<length (p # ps)] = 0 # map Suc [0..<length ps]"
    by (simp add: upt_conv_Cons map_Suc_upt del: upt_Suc)
  have Q0: "?Q 0 \<longleftrightarrow> key p \<notin> seen" by simp
  have QS: "?Q (Suc i) \<longleftrightarrow>
      key (ps ! i) \<notin> seen \<and> key p \<noteq> key (ps ! i) \<and> (\<forall>j<i. key (ps ! j) \<noteq> key (ps ! i))" for i
    by (simp add: All_less_Suc2)
  have split: "map (\<lambda>i. (p # ps) ! i) (filter ?Q [0..<length (p # ps)]) =
      (if key p \<notin> seen then [p] else []) @
      map (\<lambda>i. ps ! i) (filter (\<lambda>i. ?Q (Suc i)) [0..<length ps])"
    unfolding up by (simp add: filter_map comp_def del: upt_Suc)
  show ?case
  proof (cases "key p \<in> seen")
    case True
    have "filter (\<lambda>i. ?Q (Suc i)) [0..<length ps] =
        filter (\<lambda>i. key (ps ! i) \<notin> seen \<and> (\<forall>j<i. key (ps ! j) \<noteq> key (ps ! i))) [0..<length ps]"
      using True by (intro filter_cong refl) (auto simp: All_less_Suc2)
    then show ?thesis
      unfolding split using True by (simp add: Cons.IH del: upt_Suc)
  next
    case False
    have "filter (\<lambda>i. ?Q (Suc i)) [0..<length ps] =
        filter (\<lambda>i. key (ps ! i) \<notin> insert (key p) seen \<and> (\<forall>j<i. key (ps ! j) \<noteq> key (ps ! i)))
          [0..<length ps]"
      by (intro filter_cong refl) (auto simp: All_less_Suc2)
    then show ?thesis
      unfolding split using False by (simp add: Cons.IH del: upt_Suc)
  qed
qed

lemma dedup_first_by: "dedup key {} ps = first_by key ps"
  by (simp add: dedup_index first_by_def)

lemma dedup_keys:
  "distinct (map key (dedup key seen ps)) \<and> key ` set (dedup key seen ps) = key ` set ps - seen"
proof (induction ps arbitrary: seen)
  case Nil
  show ?case by simp
next
  case (Cons p ps)
  show ?case
  proof (cases "key p \<in> seen")
    case True
    then show ?thesis using Cons.IH [of seen] by auto
  next
    case False
    then show ?thesis using Cons.IH [of "insert (key p) seen"] by auto
  qed
qed

lemma dedup_subset: "set (dedup key seen ps) \<subseteq> set ps"
proof (induction ps arbitrary: seen)
  case Nil
  show ?case by simp
next
  case (Cons p ps)
  show ?case
    using Cons.IH [of seen] Cons.IH [of "insert (key p) seen"] by auto
qed

lemma dedup_inj:
  assumes "inj_on key (set ps)"
  shows "distinct (dedup key {} ps)" and "set (dedup key {} ps) = set ps"
proof -
  have d: "distinct (map key (dedup key {} ps))" and k: "key ` set (dedup key {} ps) = key ` set ps"
    using dedup_keys [of key "{}" ps] by simp_all
  show "distinct (dedup key {} ps)" using d by (simp add: distinct_map)
  show "set (dedup key {} ps) = set ps"
    using inj_on_image_eq_iff [OF assms dedup_subset [of key "{}" ps] subset_refl] k by simp
qed

lemma translate_all_pictures:
  "map pictures (fst (translate_all key tr docs s)) = map (\<lambda>doc. first_by key (pdf_payloads doc)) docs"
proof (induction docs arbitrary: s)
  case Nil
  show ?case by simp
next
  case (Cons doc docs)
  obtain items s1 where 1: "translate_pdf key tr doc s = (items, s1)"
    by (cases "translate_pdf key tr doc s")
  obtain rest s2 where 2: "translate_all key tr docs s1 = (rest, s2)"
    by (cases "translate_all key tr docs s1")
  have "pictures items = first_by key (pdf_payloads doc)"
    using translate_pdf_pictures [of key tr doc s] 1 by (simp add: dedup_first_by)
  moreover have "map pictures rest = map (\<lambda>doc. first_by key (pdf_payloads doc)) docs"
    using Cons.IH [of s1] 2 by simp
  ultimately show ?case by (simp add: 1 2)
qed

text \<open>
  Claim C7, as the code has it. The images emitted by one conversion are the resolved
  payloads, in processing order over all pages (block path and fallback pass), whose
  fingerprint no earlier payload of the same document has: one image for every
  fingerprint, at its first occurrence. The set of fingerprints starts empty for every
  document: in a batch of documents, the images of each are the first occurrences among
  its own payloads. When no two different payloads of the document share a fingerprint,
  every payload is emitted exactly once.
\<close>

theorem image_dedup_spec:
  "pictures (fst (translate_pdf key tr doc s)) = first_by key (pdf_payloads doc) \<and>
   distinct (map key (pictures (fst (translate_pdf key tr doc s)))) \<and>
   key ` set (pictures (fst (translate_pdf key tr doc s))) = key ` set (pdf_payloads doc) \<and>
   (inj_on key (set (pdf_payloads doc)) \<longrightarrow>
      distinct (pictures (fst (translate_pdf key tr doc s))) \<and>
      set (pictures (fst (translate_pdf key tr doc s))) = set (pdf_payloads doc)) \<and>
   map pictures (fst (translate_all key tr docs s)) =
     map (\<lambda>doc. first_by key (pdf_payloads doc)) docs"
proof -
  have a: "pictures (fst (translate_pdf key tr doc s)) = first_by key (pdf_payloads doc)"
    by (simp add: translate_pdf_pictures dedup_first_by)
  have b: "distinct (map key (pictures (fst (translate_pdf key tr doc s))))"
    and c: "key ` set (pictures (fst (translate_pdf key tr doc s))) = key ` set (pdf_payloads doc)"
    using dedup_keys [of key "{}" "pdf_payloads doc"] by (simp_all add: translate_pdf_pictures)
  have d: "inj_on key (set (pdf_payloads doc)) \<longrightarrow>
      distinct (pictures (fst (translate_pdf key tr doc s))) \<and>
      set (pictures (fst (translate_pdf key tr doc s))) = set (pdf_payloads doc)"
    unfolding translate_pdf_pictures using dedup_inj [of key "pdf_payloads doc"] by blast
  show ?thesis by (intro conjI a b c d translate_all_pictures)
qed

text \<open>
  The digest of the model on a test vector of RFC 1321 and on the two colliding messages,
  as \<^verbatim>\<open>hashlib\<close> gives them.
\<close>

lemma rounds_more: "i < 64 \<Longrightarrow> md5_rounds M i st = md5_rounds M (i + 1) (md5_step M st i)"
  by (subst md5_rounds.simps) simp

lemma rounds_done: "\<not> i < 64 \<Longrightarrow> md5_rounds M i st = st"
  by (subst md5_rounds.simps) simp

lemma replicate_numeral_Cons: "replicate (numeral k) x = x # replicate (pred_numeral k) x"
  by (simp add: numeral_eq_Suc)

lemmas md5_eval = md5_chunk_def rounds_more rounds_done add32_def not32_def rotl32_def md5_F_def
  md5_g_def md5_K_def md5_S_def

lemma chunks_abc: "md5_chunks [0x61, 0x62, 0x63] = [[2153996897, 0, 0, 0, 0, 0, 0, 0, 0, 0, 0, 0, 0, 0, 24, 0]]"
  by (simp add: md5_chunks_def md5_pad_def replicate_numeral_Cons chunks16.simps)

lemma chunks_a: "md5_chunks collision_a = [[48050641, 3303990981, 110771561, 1559867288, 2276837935, 2877179410, 1045955648, 2306866104, 104115541, 45347849, 2206786691, 1514238245, 3894759688, 2680802807, 4072480217, 1530673024],
  [826180312, 1536111702, 3568070062, 3323578678, 3034731485, 4244888199, 107165954, 2697808082, 1110679529, 3900593935, 1890997454, 504211584, 3156318406, 2474879158, 728103318, 1881864047],
  [128, 0, 0, 0, 0, 0, 0, 0, 0, 0, 0, 0, 0, 0, 1024, 0]]"
  by (simp add: md5_chunks_def md5_pad_def replicate_numeral_Cons chunks16.simps collision_a_def)

lemma chunks_b: "md5_chunks collision_b = [[48050641, 3303990981, 110771561, 1559867288, 129354287, 2877179410, 1045955648, 2306866104, 104115541, 45347849, 2206786691, 1514271013, 3894759688, 2680802807, 1924996569, 1530673024],
  [826180312, 1536111702, 3568070062, 3323578678, 887247837, 4244888199, 107165954, 2697808082, 1110679529, 3900593935, 1890997454, 504178816, 3156318406, 2474879158, 2875586966, 1881864047],
  [128, 0, 0, 0, 0, 0, 0, 0, 0, 0, 0, 0, 0, 0, 1024, 0]]"
  by (simp add: md5_chunks_def md5_pad_def replicate_numeral_Cons chunks16.simps collision_b_def)

lemma chunk_abc: "md5_chunk (0x67452301, 0xefcdab89, 0x98badcfe, 0x10325476) [2153996897, 0, 0, 0, 0, 0, 0, 0, 0, 0, 0, 0, 0, 0, 24, 0] = (2555380112, 2958021180, 2101319382, 1920983336)"
  by (simp add: md5_eval)

lemma key_abc: "get_image_key [0x61, 0x62, 0x63] = ustr ''900150983cd24fb0d6963f7d28e17f72''"
  by (simp add: get_image_key_def md5_digest_def chunks_abc chunk_abc hex_word_def hex_digit_def ustr_def)

lemma chunk_a1: "md5_chunk (0x67452301, 0xefcdab89, 0x98badcfe, 0x10325476) [48050641, 3303990981, 110771561, 1559867288, 2276837935, 2877179410, 1045955648, 2306866104, 104115541, 45347849, 2206786691, 1514238245, 3894759688, 2680802807, 4072480217, 1530673024] = (1381536548, 814995402, 705092692, 549830150)"
  by (simp add: md5_eval)

lemma chunk_a2: "md5_chunk (1381536548, 814995402, 705092692, 549830150) [826180312, 1536111702, 3568070062, 3323578678, 3034731485, 4244888199, 107165954, 2697808082, 1110679529, 3900593935, 1890997454, 504211584, 3156318406, 2474879158, 728103318, 1881864047] = (2371776537, 1635798536, 1901947736, 1663352853)"
  by (simp add: md5_eval)

lemma chunk_b1: "md5_chunk (0x67452301, 0xefcdab89, 0x98badcfe, 0x10325476) [48050641, 3303990981, 110771561, 1559867288, 129354287, 2877179410, 1045955648, 2306866104, 104115541, 45347849, 2206786691, 1514271013, 3894759688, 2680802807, 1924996569, 1530673024] = (3529020196, 2996033482, 2886130772, 2730868230)"
  by (simp add: md5_eval)

lemma chunk_b2: "md5_chunk (3529020196, 2996033482, 2886130772, 2730868230) [826180312, 1536111702, 3568070062, 3323578678, 887247837, 4244888199, 107165954, 2697808082, 1110679529, 3900593935, 1890997454, 504178816, 3156318406, 2474879158, 2875586966, 1881864047] = (2371776537, 1635798536, 1901947736, 1663352853)"
  by (simp add: md5_eval)

lemma chunk_last: "md5_chunk (2371776537, 1635798536, 1901947736, 1663352853) [128, 0, 0, 0, 0, 0, 0, 0, 0, 0, 0, 0, 0, 0, 1024, 0] = (624952697, 2729533221, 583289710, 3025073582)"
  by (simp add: md5_eval)

lemma key_a: "get_image_key collision_a = ustr ''79054025255fb1a26e4bc422aef54eb4''"
  by (simp add: get_image_key_def md5_digest_def chunks_a chunk_a1 chunk_a2 chunk_last
      hex_word_def hex_digit_def ustr_def)

lemma key_b: "get_image_key collision_b = ustr ''79054025255fb1a26e4bc422aef54eb4''"
  by (simp add: get_image_key_def md5_digest_def chunks_b chunk_b1 chunk_b2 chunk_last
      hex_word_def hex_digit_def ustr_def)

lemma collision_differs: "collision_a \<noteq> collision_b"
  by (simp add: collision_a_def collision_b_def)


lemma collision_a_nonempty: "collision_a \<noteq> []"
  by (simp add: collision_a_def)

lemma collision_b_nonempty: "collision_b \<noteq> []"
  by (simp add: collision_b_def)

lemma ex_doc_payloads:
  "pdf_payloads ex_doc =
     [[0x61, 0x62, 0x63], [0x61, 0x62, 0x63], [0x61, 0x62, 0x63], collision_a, [0x61, 0x62, 0x63]]"
  using collision_a_nonempty
  by (simp add: pdf_payloads_def page_payloads_def block_payloads_def ex_doc_def sorted_blocks_def
      image_block_of_def ex_para_def text_block_of_def top_y_def block_payload_def
      fallback_payload_def usable_def resolved_def)

lemma ex_doc_first:
  "first_by get_image_key (pdf_payloads ex_doc) = [[0x61, 0x62, 0x63], collision_a]"
  unfolding dedup_first_by [symmetric] ex_doc_payloads
  by (simp add: key_abc key_a ustr_def)

theorem image_dedup_spec_witness:
  "pdf_payloads ex_doc =
     [[0x61, 0x62, 0x63], [0x61, 0x62, 0x63], [0x61, 0x62, 0x63], collision_a, [0x61, 0x62, 0x63]] \<and>
   pictures (fst (translate_pdf get_image_key tr_raises ex_doc 0)) =
     [[0x61, 0x62, 0x63], collision_a] \<and>
   map pictures (fst (translate_all get_image_key tr_raises [ex_doc, ex_doc] 0)) =
     [[[0x61, 0x62, 0x63], collision_a], [[0x61, 0x62, 0x63], collision_a]]"
proof -
  note t = image_dedup_spec [of get_image_key tr_raises ex_doc 0 "[ex_doc, ex_doc]"]
  have p: "pictures (fst (translate_pdf get_image_key tr_raises ex_doc 0)) =
      [[0x61, 0x62, 0x63], collision_a]"
    using t [THEN conjunct1] unfolding ex_doc_first .
  have b: "map pictures (fst (translate_all get_image_key tr_raises [ex_doc, ex_doc] 0)) =
     [[[0x61, 0x62, 0x63], collision_a], [[0x61, 0x62, 0x63], collision_a]]"
    using t [THEN conjunct2, THEN conjunct2, THEN conjunct2, THEN conjunct2]
    by (simp add: ex_doc_first)
  show ?thesis by (intro conjI ex_doc_payloads p b)
qed

lemma two_images_payloads:
  "p \<noteq> [] \<Longrightarrow> q \<noteq> [] \<Longrightarrow> pdf_payloads (two_images p q) = [p, q]"
  by (simp add: pdf_payloads_def page_payloads_def block_payloads_def two_images_def
      sorted_blocks_def image_block_of_def top_y_def block_payload_def usable_def resolved_def)

text \<open>
  Claim C7 as stated fails where two different payloads have the same fingerprint: of
  the two colliding messages, as the images of two blocks of one page, only the first
  is emitted.
\<close>

theorem image_collision_counterexample:
  "collision_a \<noteq> collision_b \<and>
   pdf_payloads (two_images collision_a collision_b) = [collision_a, collision_b] \<and>
   get_image_key collision_a = get_image_key collision_b \<and>
   pictures (fst (translate_pdf get_image_key tr_raises (two_images collision_a collision_b) 0)) =
     [collision_a]"
proof -
  have pay: "pdf_payloads (two_images collision_a collision_b) = [collision_a, collision_b]"
    by (rule two_images_payloads [OF collision_a_nonempty collision_b_nonempty])
  have k: "get_image_key collision_a = get_image_key collision_b"
    by (simp add: key_a key_b)
  have "pictures (fst (translate_pdf get_image_key tr_raises (two_images collision_a collision_b) 0)) =
      dedup get_image_key {} [collision_a, collision_b]"
    unfolding translate_pdf_pictures pay ..
  also have "\<dots> = [collision_a]" using k by simp
  finally show ?thesis
    by (intro conjI collision_differs pay k)
qed

end
